theory Spec2Isabelle
  imports Complex_Main
begin

section \<open>Data model\<close>

text \<open>
  The backfill service of \<^verbatim>\<open>proto_backfill_main.py\<close> copies tables from a source
  store to a target store. Everything outside the process (the two database
  sessions, the checkpoint directory, the clock, the thread pool) is an oracle of the
  environment record or a component of the state record; every \<^verbatim>\<open>raise\<close> of the
  source is a branch of the model.
\<close>

text \<open>
  What \<^verbatim>\<open>json.load\<close> can return. A float keeps the text of its literal, no
  arithmetic is done on it. An object is the list of its members in file order;
  \<^verbatim>\<open>json.load\<close> keeps the last of several members with one key.
\<close>

datatype json =
    JNull
  | JBool bool
  | JInt int
  | JFloat string
  | JStr string
  | JArr "json list"
  | JObj "(string \<times> json) list"

text \<open>
  The dataclass \<^verbatim>\<open>Checkpoint\<close>. Python does not enforce the annotations of a
  dataclass, so a field holds whatever value it was constructed with.
\<close>

record Checkpoint =
  table_name :: json
  processed_count :: json
  total_count :: json
  timestamp :: json
  batch_size :: json

text \<open>
  The dataclass \<^verbatim>\<open>PerformanceMetrics\<close>. Its four float fields (throughput, memory,
  CPU, duration) are measurements of the host and are left out.
\<close>

record PerformanceMetrics =
  total_records :: int

text \<open>A file of the checkpoint directory: \<^verbatim>\<open>open\<close> fails, or \<^verbatim>\<open>json.load\<close> fails,
  or the text parses.\<close>

datatype ckpt_file = Unreadable | NotJson | Doc json

datatype level = ERROR | WARNING

datatype ckpt_op = Saved Checkpoint | Cleared string

datatype error = WriteError | SourceError | FormatError | ZeroDivisionError

text \<open>
  The environment: configuration and the answers of the external collaborators.
  \<^item> \<open>src_count t\<close>: \<^verbatim>\<open>SELECT COUNT(*)\<close> on the source; \<open>None\<close> when the query raises.
  \<^item> \<open>src_sample t\<close>: \<^verbatim>\<open>SELECT * ... LIMIT 1\<close> then \<^verbatim>\<open>.one()\<close>; \<open>None\<close> when it
    raises, \<open>Some None\<close> when there is no row.
  \<^item> \<open>src_rows t\<close>: the rows the cursor of \<^verbatim>\<open>SELECT *\<close> yields, and whether it raises
    after them.
  \<^item> \<open>tgt_fails h t r\<close>: whether the insert of row \<open>r\<close> into \<open>t\<close> raises when the
    target has accepted the inserts \<open>h\<close> so far.
  \<^item> \<open>fs_fails t\<close>: whether writing or removing the checkpoint file of \<open>t\<close> raises.
  \<^item> \<open>now n\<close>: \<^verbatim>\<open>datetime.now().isoformat()\<close> at the \<open>n\<close>-th checkpoint operation.
  \<^item> \<open>val_*\<close>: the answers to the queries of the integrity validator.
  \<^item> \<open>interrupts t\<close>: whether SIGINT or SIGTERM arrives while \<open>t\<close> is processed.
  \<^item> \<open>pool_fault\<close>: \<open>Some k\<close> when an exception is raised inside the \<^verbatim>\<open>with\<close>
    statement of the executor after \<open>k\<close> batches have been handed to the workers (a
    thread that cannot be started, for instance); \<open>None\<close> when the pool works.
  \<^item> \<open>schedule\<close>: the order in which the workers of the pool make their steps, as
    the indices of the batches that step.
\<close>

record 'r env =
  enable_resume :: bool
  enable_parallel :: bool
  max_workers :: int
  config_batch_size :: int
  connect_ok :: bool
  src_count :: "string \<Rightarrow> int option"
  src_sample :: "string \<Rightarrow> 'r option option"
  src_rows :: "string \<Rightarrow> 'r list \<times> bool"
  tgt_fails :: "(string \<times> 'r) list \<Rightarrow> string \<Rightarrow> 'r \<Rightarrow> bool"
  fs_fails :: "string \<Rightarrow> bool"
  psutil_fails :: bool
  now :: "nat \<Rightarrow> string"
  val_src_count :: "string \<Rightarrow> int option"
  val_tgt_count :: "string \<Rightarrow> int option"
  val_src_sample :: "string \<Rightarrow> int \<Rightarrow> 'r list option"
  val_tgt_sample :: "string \<Rightarrow> int \<Rightarrow> 'r list option"
  interrupts :: "string \<Rightarrow> bool"
  pool_fault :: "nat option"
  schedule :: "nat list"

text \<open>
  The state: the inserts the target accepted, in order; the checkpoint directory; the
  checkpoint files written and removed, in order; the error and warning records of the
  logger; the flag \<^verbatim>\<open>self.running\<close>; and \<^verbatim>\<open>self.stats\<close>.
\<close>

record 'r state =
  target :: "(string \<times> 'r) list"
  files :: "string \<Rightarrow> ckpt_file option"
  ckpt_ops :: "ckpt_op list"
  logs :: "level list"
  running :: bool
  tables_processed :: int
  records_processed :: int
  errors :: int
  performance_metrics :: "string \<Rightarrow> PerformanceMetrics option"

definition logger :: "level \<Rightarrow> 'r state \<Rightarrow> 'r state" where
  "logger l st = st\<lparr>logs := logs st @ [l]\<rparr>"

section \<open>Checkpoint store\<close>

definition Checkpoint_fields :: "string list" where
  "Checkpoint_fields =
     [''table_name'', ''processed_count'', ''total_count'', ''timestamp'', ''batch_size'']"

text \<open>\<^verbatim>\<open>checkpoint.__dict__\<close>, as \<^verbatim>\<open>json.dump\<close> writes it.\<close>

definition json_of_Checkpoint :: "Checkpoint \<Rightarrow> json" where
  "json_of_Checkpoint c =
     JObj [(''table_name'', table_name c), (''processed_count'', processed_count c),
           (''total_count'', total_count c), (''timestamp'', timestamp c),
           (''batch_size'', batch_size c)]"

text \<open>The value of a key in the dict built from the members: the last member wins.\<close>

definition dict_get :: "(string \<times> json) list \<Rightarrow> string \<Rightarrow> json option" where
  "dict_get kvs k = map_of (rev kvs) k"

text \<open>
  \<^verbatim>\<open>Checkpoint(**data)\<close>: a TypeError (here \<open>None\<close>) when \<open>data\<close> is not a mapping,
  when a key is not a field, or when a field has no key. The values are not
  inspected.
\<close>

definition Checkpoint_of_json :: "json \<Rightarrow> Checkpoint option" where
  "Checkpoint_of_json data =
     (case data of
        JObj kvs \<Rightarrow>
          (if list_all (\<lambda>k. k \<in> set Checkpoint_fields) (map fst kvs)
              \<and> list_all (\<lambda>f. f \<in> set (map fst kvs)) Checkpoint_fields
           then (case (dict_get kvs ''table_name'', dict_get kvs ''processed_count'',
                       dict_get kvs ''total_count'', dict_get kvs ''timestamp'',
                       dict_get kvs ''batch_size'') of
                   (Some a, Some b, Some c, Some d, Some e) \<Rightarrow>
                     Some \<lparr>table_name = a, processed_count = b, total_count = c,
                           timestamp = d, batch_size = e\<rparr>
                 | _ \<Rightarrow> None)
           else None)
      | _ \<Rightarrow> None)"

definition save_checkpoint ::
  "'r env \<Rightarrow> string \<Rightarrow> int \<Rightarrow> int \<Rightarrow> int \<Rightarrow> 'r state \<Rightarrow> 'r state" where
  "save_checkpoint env t pc tot B st =
     (if fs_fails env t then logger WARNING st
      else
        let c = \<lparr>table_name = JStr t, processed_count = JInt pc, total_count = JInt tot,
                 timestamp = JStr (now env (length (ckpt_ops st))), batch_size = JInt B\<rparr>
        in st\<lparr>files := (files st)(t := Some (Doc (json_of_Checkpoint c))),
               ckpt_ops := ckpt_ops st @ [Saved c]\<rparr>)"

definition load_checkpoint :: "string \<Rightarrow> 'r state \<Rightarrow> Checkpoint option \<times> 'r state" where
  "load_checkpoint t st =
     (case files st t of
        None \<Rightarrow> (None, st)
      | Some Unreadable \<Rightarrow> (None, logger WARNING st)
      | Some NotJson \<Rightarrow> (None, logger WARNING st)
      | Some (Doc data) \<Rightarrow>
          (case Checkpoint_of_json data of
             None \<Rightarrow> (None, logger WARNING st)
           | Some c \<Rightarrow> (Some c, st)))"

definition clear_checkpoint :: "'r env \<Rightarrow> string \<Rightarrow> 'r state \<Rightarrow> 'r state" where
  "clear_checkpoint env t st =
     (case files st t of
        None \<Rightarrow> st
      | Some f \<Rightarrow>
          (if fs_fails env t then logger WARNING st
           else st\<lparr>files := (files st)(t := None), ckpt_ops := ckpt_ops st @ [Cleared t]\<rparr>))"

section \<open>Table copier\<close>

text \<open>Whether the format specification \<^verbatim>\<open>:,\<close> of an f-string accepts the value:
  numbers (and booleans, which are integers) do, every other value raises.\<close>

fun fmt_comma_ok :: "json \<Rightarrow> bool" where
  "fmt_comma_ok (JInt n) = True"
| "fmt_comma_ok (JBool b) = True"
| "fmt_comma_ok (JFloat s) = True"
| "fmt_comma_ok j = False"

text \<open>Lines 103 to 109: the report of an existing checkpoint.\<close>

definition report_checkpoint :: "'r env \<Rightarrow> string \<Rightarrow> 'r state \<Rightarrow> (error + unit) \<times> 'r state" where
  "report_checkpoint env t st =
     (if enable_resume env then
        (case load_checkpoint t st of
           (None, st1) \<Rightarrow> (Inr (), st1)
         | (Some c, st1) \<Rightarrow>
             (if fmt_comma_ok (processed_count c) \<and> fmt_comma_ok (total_count c)
              then (Inr (), st1) else (Inl FormatError, st1)))
      else (Inr (), st))"

text \<open>\<^verbatim>\<open>self.tgt_service.session.execute(insert_query, values)\<close> for one row.\<close>

definition tgt_execute :: "'r env \<Rightarrow> string \<Rightarrow> 'r \<Rightarrow> 'r state \<Rightarrow> (error + unit) \<times> 'r state" where
  "tgt_execute env t r st =
     (if tgt_fails env (target st) t r then (Inl WriteError, st)
      else (Inr (), st\<lparr>target := target st @ [(t, r)]\<rparr>))"

text \<open>The loop \<^verbatim>\<open>for batch_row in current_batch\<close> of lines 149 and 170.\<close>

fun insert_batch :: "'r env \<Rightarrow> string \<Rightarrow> 'r list \<Rightarrow> 'r state \<Rightarrow> (error + unit) \<times> 'r state" where
  "insert_batch env t [] st = (Inr (), st)"
| "insert_batch env t (r # rs) st =
     (case tgt_execute env t r st of
        (Inl e, st1) \<Rightarrow> (Inl e, st1)
      | (Inr u, st1) \<Rightarrow> insert_batch env t rs st1)"

text \<open>The local variables of the streaming loop.\<close>

record 'r loop_vars =
  processed :: int
  batch_num :: int
  current_batch :: "'r list"

text \<open>Lines 161 and 182: \<^verbatim>\<open>(processed_count / total_records) * 100\<close>.\<close>

definition progress :: "int \<Rightarrow> 'a \<Rightarrow> 'r state \<Rightarrow> (error + 'a) \<times> 'r state" where
  "progress tot v st = (if tot = 0 then (Inl ZeroDivisionError, st) else (Inr v, st))"

text \<open>Lines 143 to 165: the loop over the rows of the cursor.\<close>

fun stream_loop ::
  "'r env \<Rightarrow> string \<Rightarrow> int \<Rightarrow> int \<Rightarrow> 'r list \<Rightarrow> 'r loop_vars \<Rightarrow> 'r state
     \<Rightarrow> (error + 'r loop_vars) \<times> 'r state" where
  "stream_loop env t B tot [] v st = (Inr v, st)"
| "stream_loop env t B tot (row # rows) v st =
     (let cur = current_batch v @ [row] in
      if B \<le> int (length cur) then
        (case insert_batch env t cur st of
           (Inl e, st1) \<Rightarrow> (Inl e, st1)
         | (Inr u, st1) \<Rightarrow>
             (let pc = processed v + int (length cur);
                  bn = batch_num v + 1;
                  st2 = (if enable_resume env \<and> bn mod 10 = 0
                         then save_checkpoint env t pc tot B st1 else st1)
              in case progress tot () st2 of
                   (Inl e, st3) \<Rightarrow> (Inl e, st3)
                 | (Inr u', st3) \<Rightarrow>
                     stream_loop env t B tot rows
                       \<lparr>processed = pc, batch_num = bn, current_batch = []\<rparr> st3))
      else stream_loop env t B tot rows (v\<lparr>current_batch := cur\<rparr>) st)"

text \<open>Lines 167 to 183: the trailing batch.\<close>

definition flush_tail ::
  "'r env \<Rightarrow> string \<Rightarrow> int \<Rightarrow> int \<Rightarrow> 'r loop_vars \<Rightarrow> 'r state
     \<Rightarrow> (error + 'r loop_vars) \<times> 'r state" where
  "flush_tail env t B tot v st =
     (if current_batch v \<noteq> [] then
        (case insert_batch env t (current_batch v) st of
           (Inl e, st1) \<Rightarrow> (Inl e, st1)
         | (Inr u, st1) \<Rightarrow>
             (let pc = processed v + int (length (current_batch v));
                  bn = batch_num v + 1;
                  st2 = (if enable_resume env
                         then save_checkpoint env t pc tot B st1 else st1)
              in progress tot (v\<lparr>processed := pc, batch_num := bn\<rparr>) st2))
      else (Inr v, st))"

text \<open>Lines 136 to 184: stream the source and flush batch by batch. A cursor that
  raises does so inside the \<^verbatim>\<open>for\<close> statement, before the trailing batch.\<close>

definition copy_rows ::
  "'r env \<Rightarrow> string \<Rightarrow> int \<Rightarrow> int \<Rightarrow> 'r state \<Rightarrow> (error + 'r loop_vars) \<times> 'r state" where
  "copy_rows env t B tot st =
     (case stream_loop env t B tot (fst (src_rows env t))
             \<lparr>processed = 0, batch_num = 0, current_batch = []\<rparr> st of
        (Inl e, st1) \<Rightarrow> (Inl e, st1)
      | (Inr v, st1) \<Rightarrow>
          (if snd (src_rows env t) then (Inl SourceError, st1)
           else flush_tail env t B tot v st1))"

text \<open>\<^verbatim>\<open>get_performance_metrics\<close>: the default record when sampling the host raises.\<close>

definition get_performance_metrics :: "'r env \<Rightarrow> int \<Rightarrow> PerformanceMetrics" where
  "get_performance_metrics env record_count =
     (if psutil_fails env then \<lparr>total_records = 0\<rparr> else \<lparr>total_records = record_count\<rparr>)"

text \<open>The body of the \<^verbatim>\<open>try\<close> statement of \<^verbatim>\<open>copy_table_data\<close>.\<close>

definition copy_table_body ::
  "'r env \<Rightarrow> string \<Rightarrow> int \<Rightarrow> 'r state \<Rightarrow> (error + bool) \<times> 'r state" where
  "copy_table_body env t B st =
     (case report_checkpoint env t st of
        (Inl e, st1) \<Rightarrow> (Inl e, st1)
      | (Inr u, st1) \<Rightarrow>
          (case src_count env t of
             None \<Rightarrow> (Inl SourceError, st1)
           | Some tot \<Rightarrow>
               (if tot = 0 then (Inr True, logger WARNING st1)
                else
                  (case src_sample env t of
                     None \<Rightarrow> (Inl SourceError, st1)
                   | Some None \<Rightarrow> (Inr True, logger WARNING st1)
                   | Some (Some sample_row) \<Rightarrow>
                       (case copy_rows env t B tot st1 of
                          (Inl e, st2) \<Rightarrow> (Inl e, st2)
                        | (Inr v, st2) \<Rightarrow>
                            (let metrics = get_performance_metrics env (processed v);
                                 st3 = (if psutil_fails env then logger WARNING st2 else st2);
                                 st4 = st3\<lparr>performance_metrics :=
                                             (performance_metrics st3)(t := Some metrics)\<rparr>;
                                 st5 = (if enable_resume env
                                        then clear_checkpoint env t st4 else st4)
                             in (Inr True,
                                 st5\<lparr>tables_processed := tables_processed st5 + 1,
                                      records_processed :=
                                        records_processed st5 + processed v\<rparr>)))))))"

text \<open>\<^verbatim>\<open>copy_table_data\<close>: the handler logs the error, counts it and returns False.\<close>

definition copy_table_data :: "'r env \<Rightarrow> string \<Rightarrow> int \<Rightarrow> 'r state \<Rightarrow> bool \<times> 'r state" where
  "copy_table_data env t B st =
     (case copy_table_body env t B st of
        (Inr b, st1) \<Rightarrow> (b, st1)
      | (Inl e, st1) \<Rightarrow> (False, (logger ERROR st1)\<lparr>errors := errors st1 + 1\<rparr>))"

section \<open>Parallel batch executor\<close>

text \<open>The closure \<^verbatim>\<open>process_single_batch\<close>: the first insert that raises ends the
  batch, and the exception is kept in the future.\<close>

fun process_single_batch ::
  "'r env \<Rightarrow> string \<Rightarrow> 'r list \<Rightarrow> int \<Rightarrow> 'r state \<Rightarrow> (error + int) \<times> 'r state" where
  "process_single_batch env t [] batch_processed st = (Inr batch_processed, st)"
| "process_single_batch env t (row # rows) batch_processed st =
     (case tgt_execute env t row st of
        (Inl e, st1) \<Rightarrow> (Inl e, st1)
      | (Inr u, st1) \<Rightarrow> process_single_batch env t rows (batch_processed + 1) st1)"

text \<open>
  A batch handed to the pool: its worker is still running, with the rows not yet
  inserted and the value of \<^verbatim>\<open>batch_processed\<close>, or it has finished, with what the
  future of the batch holds.
\<close>

datatype 'r job = Running "'r list" int | Finished "error + int"

fun is_running :: "'r job \<Rightarrow> bool" where
  "is_running (Running rows n) = True"
| "is_running (Finished r) = False"

text \<open>One step of a worker in \<^verbatim>\<open>process_single_batch\<close>: the next insert, or the
  return.\<close>

fun step_job :: "'r env \<Rightarrow> string \<Rightarrow> 'r job \<Rightarrow> 'r state \<Rightarrow> 'r job \<times> 'r state" where
  "step_job env t (Running [] n) st = (Finished (Inr n), st)"
| "step_job env t (Running (row # rows) n) st =
     (case tgt_execute env t row st of
        (Inl e, st1) \<Rightarrow> (Finished (Inl e), st1)
      | (Inr u, st1) \<Rightarrow> (Running rows (n + 1), st1))"
| "step_job env t (Finished r) st = (Finished r, st)"

text \<open>
  The workers take the batches from the queue in the order of submission, and there
  are \<open>max_workers\<close> of them: batch \<open>i\<close> can make a step when fewer than
  \<open>max_workers\<close> of the batches before it are still running.
\<close>

definition eligible :: "'r env \<Rightarrow> 'r job list \<Rightarrow> nat \<Rightarrow> bool" where
  "eligible env jobs i \<longleftrightarrow>
     i < length jobs \<and> int (length (filter is_running (take i jobs))) < max_workers env"

text \<open>The workers step in the order of the schedule; an entry for a batch that
  cannot make a step is passed over.\<close>

fun run_schedule ::
  "'r env \<Rightarrow> string \<Rightarrow> nat list \<Rightarrow> 'r job list \<Rightarrow> 'r state \<Rightarrow> 'r job list \<times> 'r state" where
  "run_schedule env t [] jobs st = (jobs, st)"
| "run_schedule env t (i # sched) jobs st =
     (if eligible env jobs i then
        (case step_job env t (jobs ! i) st of
           (job, st1) \<Rightarrow> run_schedule env t sched (jobs[i := job]) st1)
      else run_schedule env t sched jobs st)"

text \<open>
  Leaving the \<^verbatim>\<open>with\<close> statement waits for every batch handed to the pool: what
  the schedule has left unfinished is run to its end, batch after batch. (Every
  interleaving of the workers is the run of some schedule.)
\<close>

fun drain ::
  "'r env \<Rightarrow> string \<Rightarrow> 'r job list \<Rightarrow> 'r state \<Rightarrow> (error + int) list \<times> 'r state" where
  "drain env t [] st = ([], st)"
| "drain env t (Running rows n # jobs) st =
     (case process_single_batch env t rows n st of
        (future, st1) \<Rightarrow>
          (case drain env t jobs st1 of
             (futures, st2) \<Rightarrow> (future # futures, st2)))"
| "drain env t (Finished r # jobs) st =
     (case drain env t jobs st of
        (futures, st1) \<Rightarrow> (r # futures, st1))"

text \<open>The pool on the batches submitted to it: one future for each batch, in the order
  of submission.\<close>

definition run_pool ::
  "'r env \<Rightarrow> string \<Rightarrow> 'r list list \<Rightarrow> 'r state \<Rightarrow> (error + int) list \<times> 'r state" where
  "run_pool env t batches st =
     (case run_schedule env t (schedule env) (map (\<lambda>batch. Running batch 0) batches) st of
        (jobs, st1) \<Rightarrow> drain env t jobs st1)"

text \<open>The loop over \<^verbatim>\<open>as_completed\<close>: a result is added, an exception is logged.
  The futures are taken here in the order of submission; the sum and the number of
  errors logged do not depend on the order.\<close>

fun collect_futures :: "(error + int) list \<Rightarrow> int \<Rightarrow> 'r state \<Rightarrow> int \<times> 'r state" where
  "collect_futures [] pc st = (pc, st)"
| "collect_futures (Inr batch_processed # futures) pc st =
     collect_futures futures (pc + batch_processed) st"
| "collect_futures (Inl e # futures) pc st = collect_futures futures pc (logger ERROR st)"

text \<open>The handler of the outer \<^verbatim>\<open>try\<close>: every row of every batch in turn; an insert
  that raises here leaves \<^verbatim>\<open>process_batch_parallel\<close> as an exception.\<close>

fun fallback_batch ::
  "'r env \<Rightarrow> string \<Rightarrow> 'r list \<Rightarrow> int \<Rightarrow> 'r state \<Rightarrow> (error + int) \<times> 'r state" where
  "fallback_batch env t [] pc st = (Inr pc, st)"
| "fallback_batch env t (row # rows) pc st =
     (case tgt_execute env t row st of
        (Inl e, st1) \<Rightarrow> (Inl e, st1)
      | (Inr u, st1) \<Rightarrow> fallback_batch env t rows (pc + 1) st1)"

fun fallback ::
  "'r env \<Rightarrow> string \<Rightarrow> 'r list list \<Rightarrow> int \<Rightarrow> 'r state \<Rightarrow> (error + int) \<times> 'r state" where
  "fallback env t [] pc st = (Inr pc, st)"
| "fallback env t (batch # batches) pc st =
     (case fallback_batch env t batch pc st of
        (Inl e, st1) \<Rightarrow> (Inl e, st1)
      | (Inr pc1, st1) \<Rightarrow> fallback env t batches pc1 st1)"

text \<open>
  What goes wrong inside the \<^verbatim>\<open>with\<close> statement, if anything:
  \<^verbatim>\<open>ThreadPoolExecutor(max_workers=n)\<close> raises ValueError for \<open>n \<le> 0\<close>, before any
  batch is submitted; otherwise the fault of the environment.
\<close>

definition pool_failure :: "'r env \<Rightarrow> nat option" where
  "pool_failure env = (if max_workers env \<le> 0 then Some 0 else pool_fault env)"

text \<open>
  \<^verbatim>\<open>process_batch_parallel\<close>. When the \<^verbatim>\<open>with\<close> statement is left by an exception,
  the batches handed to the pool so far are completed by the workers, their futures
  are not read, and the handler of line 331 logs the error and applies every batch of
  the list in turn. Otherwise the futures of all the batches are collected.
\<close>

definition process_batch_parallel ::
  "'r env \<Rightarrow> 'r list list \<Rightarrow> string \<Rightarrow> 'r state \<Rightarrow> (error + int) \<times> 'r state" where
  "process_batch_parallel env batches t st =
     (case pool_failure env of
        Some k \<Rightarrow>
          (case run_pool env t (take k batches) st of
             (futures, st1) \<Rightarrow> fallback env t batches 0 (logger ERROR st1))
      | None \<Rightarrow>
          (case run_pool env t batches st of
             (futures, st1) \<Rightarrow>
               (case collect_futures futures 0 st1 of
                  (pc, st2) \<Rightarrow> (Inr pc, st2))))"

section \<open>Integrity validator\<close>

definition validate_data_integrity_detailed ::
  "'r env \<Rightarrow> string \<Rightarrow> 'r state \<Rightarrow> bool \<times> 'r state" where
  "validate_data_integrity_detailed env t st =
     (case val_src_count env t of
        None \<Rightarrow> (False, logger ERROR st)
      | Some src_c \<Rightarrow>
          (case val_tgt_count env t of
             None \<Rightarrow> (False, logger ERROR st)
           | Some tgt_c \<Rightarrow>
               (if src_c \<noteq> tgt_c then (False, logger ERROR st)
                else
                  (let sample_size = min 100 src_c in
                   if 0 < sample_size then
                     (case val_src_sample env t sample_size of
                        None \<Rightarrow> (False, logger ERROR st)
                      | Some src_s \<Rightarrow>
                          (case val_tgt_sample env t sample_size of
                             None \<Rightarrow> (False, logger ERROR st)
                           | Some tgt_s \<Rightarrow>
                               (if list_ex (\<lambda>(src_row, tgt_row). src_row \<noteq> tgt_row)
                                     (zip src_s tgt_s)
                                then (False, logger ERROR st)
                                else (True, st))))
                   else (True, st)))))"

section \<open>Run orchestrator\<close>

text \<open>
  The loop over the tables of \<^verbatim>\<open>run_backfill\<close>. The flag \<^verbatim>\<open>self.running\<close> is read
  at the head of each iteration only; a signal that arrives while a table is processed
  clears it for the iterations that follow. The result of the validator is dropped.
\<close>

fun run_tables :: "'r env \<Rightarrow> int \<Rightarrow> string list \<Rightarrow> 'r state \<Rightarrow> 'r state" where
  "run_tables env B [] st = st"
| "run_tables env B (t # ts) st =
     (if \<not> running st then st
      else
        (case copy_table_data env t B st of
           (success, st1) \<Rightarrow>
             (let st2 = st1\<lparr>running := \<not> interrupts env t\<rparr> in
              if \<not> success then run_tables env B ts (logger ERROR st2)
              else run_tables env B ts (snd (validate_data_integrity_detailed env t st2)))))"

text \<open>\<^verbatim>\<open>run_backfill\<close>: False only when the connections cannot be set up.\<close>

definition run_backfill :: "'r env \<Rightarrow> string list \<Rightarrow> 'r state \<Rightarrow> bool \<times> 'r state" where
  "run_backfill env tables st =
     (if \<not> connect_ok env then (False, logger ERROR (logger ERROR st))
      else (True, run_tables env (config_batch_size env) tables st))"

section \<open>A small run, used to evaluate the definitions\<close>

text \<open>A source table of three rows, a target that accepts every insert, an empty
  checkpoint directory.\<close>

definition demo_env :: "nat env" where
  "demo_env =
     \<lparr>enable_resume = True, enable_parallel = True, max_workers = 4, config_batch_size = 2,
      connect_ok = True,
      src_count = (\<lambda>t. Some 3), src_sample = (\<lambda>t. Some (Some 1)),
      src_rows = (\<lambda>t. ([1, 2, 3], False)),
      tgt_fails = (\<lambda>h t r. False), fs_fails = (\<lambda>t. False), psutil_fails = False,
      now = (\<lambda>n. ''2024-01-01T00:00:00''),
      val_src_count = (\<lambda>t. Some 3), val_tgt_count = (\<lambda>t. Some 3),
      val_src_sample = (\<lambda>t n. Some [1, 2, 3]), val_tgt_sample = (\<lambda>t n. Some [1, 2, 3]),
      interrupts = (\<lambda>t. False), pool_fault = None, schedule = []\<rparr>"

definition demo_state :: "nat state" where
  "demo_state =
     \<lparr>target = [], files = (\<lambda>t. None), ckpt_ops = [], logs = [], running = True,
      tables_processed = 0, records_processed = 0, errors = 0,
      performance_metrics = (\<lambda>t. None)\<rparr>"

section \<open>Notions used in the properties\<close>

text \<open>A JSON value that is an object with exactly the five keys of a checkpoint.\<close>

definition has_checkpoint_keys :: "json \<Rightarrow> bool" where
  "has_checkpoint_keys data =
     (case data of JObj kvs \<Rightarrow> set (map fst kvs) = set Checkpoint_fields | _ \<Rightarrow> False)"

text \<open>The annotations of the dataclass \<^verbatim>\<open>Checkpoint\<close>: \<^verbatim>\<open>str\<close>, \<^verbatim>\<open>int\<close>, \<^verbatim>\<open>int\<close>,
  \<^verbatim>\<open>str\<close>, \<^verbatim>\<open>int\<close>.\<close>

definition Checkpoint_typed :: "Checkpoint \<Rightarrow> bool" where
  "Checkpoint_typed c =
     (case (table_name c, processed_count c, total_count c, timestamp c, batch_size c) of
        (JStr n, JInt p, JInt tc, JStr ts, JInt b) \<Rightarrow> True
      | _ \<Rightarrow> False)"

text \<open>A checkpoint file with the five keys, whose processed count is a string.\<close>

definition bad_doc :: json where
  "bad_doc =
     JObj [(''table_name'', JStr ''orders''), (''processed_count'', JStr ''many''),
           (''total_count'', JInt 3), (''timestamp'', JStr ''2024-01-01T00:00:00''),
           (''batch_size'', JInt 2)]"

definition bad_state :: "nat state" where
  "bad_state = demo_state\<lparr>files := (\<lambda>t. Some (Doc bad_doc))\<rparr>"

text \<open>
  \<open>extends st t ws cs st'\<close>: from \<open>st\<close> to \<open>st'\<close> the target has received the rows
  \<open>ws\<close> of table \<open>t\<close>, the checkpoints \<open>cs\<close> have been saved and none cleared, the
  file of \<open>t\<close> is the last of them, and the statistics and the flag are unchanged.
\<close>

definition extends :: "'r state \<Rightarrow> string \<Rightarrow> 'r list \<Rightarrow> Checkpoint list \<Rightarrow> 'r state \<Rightarrow> bool" where
  "extends st t ws cs st' \<longleftrightarrow>
     target st' = target st @ map (Pair t) ws
     \<and> ckpt_ops st' = ckpt_ops st @ map Saved cs
     \<and> files st' = (if cs = [] then files st
                    else (files st)(t := Some (Doc (json_of_Checkpoint (last cs)))))
     \<and> running st' = running st
     \<and> tables_processed st' = tables_processed st
     \<and> records_processed st' = records_processed st
     \<and> errors st' = errors st
     \<and> performance_metrics st' = performance_metrics st"

text \<open>A checkpoint of table \<open>t\<close> with total \<open>tot\<close>, batch size \<open>B\<close> and a processed
  count between \<open>lo\<close> and \<open>hi\<close>.\<close>

definition ckpt_for :: "string \<Rightarrow> int \<Rightarrow> int \<Rightarrow> int \<Rightarrow> int \<Rightarrow> Checkpoint \<Rightarrow> bool" where
  "ckpt_for t tot B lo hi c \<longleftrightarrow>
     table_name c = JStr t \<and> total_count c = JInt tot \<and> batch_size c = JInt B
     \<and> (case processed_count c of JInt p \<Rightarrow> lo \<le> p \<and> p \<le> hi | _ \<Rightarrow> False)"

text \<open>The state after the rows are copied: metrics, clearing of the checkpoint,
  statistics (lines 185 to 201).\<close>

definition finish_copy :: "'r env \<Rightarrow> string \<Rightarrow> 'r loop_vars \<Rightarrow> 'r state \<Rightarrow> 'r state" where
  "finish_copy env t v st2 =
     (let metrics = get_performance_metrics env (processed v);
          st3 = (if psutil_fails env then logger WARNING st2 else st2);
          st4 = st3\<lparr>performance_metrics := (performance_metrics st3)(t := Some metrics)\<rparr>;
          st5 = (if enable_resume env then clear_checkpoint env t st4 else st4)
      in st5\<lparr>tables_processed := tables_processed st5 + 1,
              records_processed := records_processed st5 + processed v\<rparr>)"

text \<open>The target refuses row 3.\<close>

definition fail_env :: "nat env" where
  "fail_env = demo_env\<lparr>tgt_fails := (\<lambda>h t r. r = 3)\<rparr>"

text \<open>The target refuses row 3 of the table \<open>orders\<close> only.\<close>

definition mixed_env :: "nat env" where
  "mixed_env = demo_env\<lparr>tgt_fails := (\<lambda>h t r. t = ''orders'' \<and> r = 3)\<rparr>"

text \<open>
  The numbers of rows written by the copies that returned True in a run: the loop of
  \<open>run_tables\<close>, collecting for each such copy the growth of the target.
\<close>

fun successful_row_counts :: "'r env \<Rightarrow> int \<Rightarrow> string list \<Rightarrow> 'r state \<Rightarrow> int list" where
  "successful_row_counts env B [] st = []"
| "successful_row_counts env B (t # ts) st =
     (if \<not> running st then []
      else
        (case copy_table_data env t B st of
           (success, st1) \<Rightarrow>
             (let st2 = st1\<lparr>running := \<not> interrupts env t\<rparr> in
              if \<not> success then successful_row_counts env B ts (logger ERROR st2)
              else (int (length (target st1)) - int (length (target st)))
                   # successful_row_counts env B ts
                       (snd (validate_data_integrity_detailed env t st2)))))"

text \<open>
  \<open>first_failure env t h rows k\<close>: when the rows are inserted one after the other
  into a target that has accepted \<open>h\<close>, the insert of row number \<open>k\<close> is the first
  that raises.
\<close>

definition first_failure ::
  "'r env \<Rightarrow> string \<Rightarrow> (string \<times> 'r) list \<Rightarrow> 'r list \<Rightarrow> nat \<Rightarrow> bool" where
  "first_failure env t h rows k \<longleftrightarrow>
     k < length rows
     \<and> tgt_fails env (h @ map (Pair t) (take k rows)) t (rows ! k)
     \<and> list_all (\<lambda>j. \<not> tgt_fails env (h @ map (Pair t) (take j rows)) t (rows ! j)) [0..<k]"

text \<open>
  What the loop over the cursor has done when the insert of row \<open>k\<close> of \<open>all\<close> is the
  first to raise: it has ended with that exception, the target holding the rows before
  \<open>k\<close>; or it has ended normally with the failing row still in the current batch.
\<close>

definition loop_outcome ::
  "'r env \<Rightarrow> string \<Rightarrow> (string \<times> 'r) list \<Rightarrow> 'r list \<Rightarrow> nat
     \<Rightarrow> (error + 'r loop_vars) \<times> 'r state \<Rightarrow> bool" where
  "loop_outcome env t h all k out \<longleftrightarrow>
     (case out of
        (Inl e, st') \<Rightarrow> e = WriteError \<and> target st' = h @ map (Pair t) (take k all)
      | (Inr v', st') \<Rightarrow>
          (\<exists>n k'. n \<le> k \<and> target st' = h @ map (Pair t) (take n all)
             \<and> first_failure env t (target st') (current_batch v') k'
             \<and> take n all @ take k' (current_batch v') = take k all))"

text \<open>The count query answers 1 although the stream yields three rows.\<close>

definition stale_env :: "nat env" where
  "stale_env = demo_env\<lparr>src_count := (\<lambda>t. Some 1)\<rparr>"

text \<open>Two rows, a multiple of the batch size 2.\<close>

definition even_env :: "nat env" where
  "even_env = demo_env\<lparr>src_count := (\<lambda>t. Some 2), src_rows := (\<lambda>t. ([1, 2], False))\<rparr>"

text \<open>Two environments that agree on everything the copy of a table reads.\<close>

definition copier_inputs_eq :: "'r env \<Rightarrow> 'r env \<Rightarrow> bool" where
  "copier_inputs_eq e e' \<longleftrightarrow>
     enable_resume e = enable_resume e' \<and> src_count e = src_count e'
     \<and> src_sample e = src_sample e' \<and> src_rows e = src_rows e'
     \<and> tgt_fails e = tgt_fails e' \<and> fs_fails e = fs_fails e'
     \<and> psutil_fails e = psutil_fails e' \<and> now e = now e'"

text \<open>The state without its log.\<close>

definition unlog :: "'r state \<Rightarrow> 'r state" where
  "unlog st = st\<lparr>logs := []\<rparr>"

text \<open>The target refuses row 3 and the pool cannot be built.\<close>

definition no_pool_env :: "nat env" where
  "no_pool_env = fail_env\<lparr>max_workers := 0\<rparr>"

text \<open>An exception is raised in the \<^verbatim>\<open>with\<close> statement after two batches have been
  handed to the workers.\<close>

definition faulty_pool_env :: "nat env" where
  "faulty_pool_env = demo_env\<lparr>pool_fault := Some 2\<rparr>"

text \<open>Two workers that step in turn.\<close>

definition interleaved_env :: "nat env" where
  "interleaved_env = demo_env\<lparr>schedule := [0, 1, 0, 1]\<rparr>"

section \<open>The copy loop writes every row once\<close>

lemma target_save_checkpoint [simp]: "target (save_checkpoint env t pc tot B st) = target st"
  by (simp add: save_checkpoint_def logger_def Let_def)

lemma insert_batch_ok:
  "(\<And>h r. \<not> tgt_fails env h t r) \<Longrightarrow>
   insert_batch env t rs st = (Inr (), st\<lparr>target := target st @ map (Pair t) rs\<rparr>)"
  by (induction rs arbitrary: st) (simp_all add: tgt_execute_def)

lemma stream_loop_ok:
  assumes ok: "\<And>h r. \<not> tgt_fails env h t r" and B: "0 < B" and tot: "tot \<noteq> 0"
  shows "int (length (current_batch v)) < B \<Longrightarrow>
    \<exists>v' st'. stream_loop env t B tot rows v st = (Inr v', st')
      \<and> processed v' + int (length (current_batch v'))
          = processed v + int (length (current_batch v)) + int (length rows)
      \<and> int (length (current_batch v')) < B
      \<and> processed v' - processed v = B * (batch_num v' - batch_num v)
      \<and> target st' @ map (Pair t) (current_batch v')
          = target st @ map (Pair t) (current_batch v @ rows)"
proof (induction rows arbitrary: v st)
  case Nil
  then show ?case by simp
next
  case (Cons row rows)
  let ?cur = "current_batch v @ [row]"
  show ?case
  proof (cases "B \<le> int (length ?cur)")
    case True
    with Cons.prems have len: "int (length ?cur) = B" by simp
    define st1 where "st1 = st\<lparr>target := target st @ map (Pair t) ?cur\<rparr>"
    define st2 where "st2 = (if enable_resume env \<and> (batch_num v + 1) mod 10 = 0
                         then save_checkpoint env t (processed v + int (length ?cur)) tot B st1 else st1)"
    define v1 where "v1 = \<lparr>processed = processed v + int (length ?cur), batch_num = batch_num v + 1, current_batch = ([]::'a list)\<rparr>"
    have step: "stream_loop env t B tot (row # rows) v st = stream_loop env t B tot rows v1 st2"
      using True tot by (simp add: insert_batch_ok[OF ok] progress_def st1_def st2_def v1_def Let_def del: insert_batch.simps)
    have "int (length (current_batch v1)) < B" using B by (simp add: v1_def)
    from Cons.IH[OF this, of st2] obtain v' st' where
      r: "stream_loop env t B tot rows v1 st2 = (Inr v', st')"
      and a: "processed v' + int (length (current_batch v')) = processed v1 + int (length (current_batch v1)) + int (length rows)"
      and b: "int (length (current_batch v')) < B"
      and c: "processed v' - processed v1 = B * (batch_num v' - batch_num v1)"
      and d: "target st' @ map (Pair t) (current_batch v') = target st2 @ map (Pair t) (current_batch v1 @ rows)"
      by blast
    have t2: "target st2 = target st @ map (Pair t) ?cur" by (simp add: st2_def st1_def)
    have "processed v' - processed v = B * (batch_num v' - batch_num v)"
      using c len by (simp add: v1_def algebra_simps)
    with r a b d t2 len show ?thesis unfolding step by (simp add: v1_def)
  next
    case False
    then have step: "stream_loop env t B tot (row # rows) v st = stream_loop env t B tot rows (v\<lparr>current_batch := ?cur\<rparr>) st"
      by (simp add: Let_def)
    from False have "int (length (current_batch (v\<lparr>current_batch := ?cur\<rparr>))) < B" by simp
    from Cons.IH[OF this, of st] show ?thesis unfolding step by (simp add: ac_simps)
  qed
qed

lemma target_logger [simp]: "target (logger l st) = target st"
  by (simp add: logger_def)

lemma target_clear_checkpoint [simp]: "target (clear_checkpoint env t st) = target st"
  by (simp add: clear_checkpoint_def split: option.splits)

lemma target_load_checkpoint [simp]: "target (snd (load_checkpoint t st)) = target st"
  by (simp add: load_checkpoint_def split: option.splits ckpt_file.splits)

lemma target_report_checkpoint [simp]: "target (snd (report_checkpoint env t st)) = target st"
proof (cases "load_checkpoint t st")
  case (Pair c st1)
  then have "target st1 = target st" using target_load_checkpoint[of t st] by simp
  with Pair show ?thesis by (simp add: report_checkpoint_def split: option.splits)
qed

lemma quotient_unique:
  fixes B :: int
  assumes "0 < B" "0 \<le> c" "c < B" "B * q + c = n"
  shows "q = n div B" "c = n mod B"
proof -
  have n: "n = c + q * B" using assms by (simp add: ac_simps)
  show "q = n div B" using assms by (simp add: n)
  show "c = n mod B" using assms by (simp add: n)
qed

lemma ceiling_div_int:
  fixes B n :: int
  assumes "0 < B"
  shows "\<lceil>real_of_int n / real_of_int B\<rceil> = n div B + (if n mod B = 0 then 0 else 1)"
  using assms by (simp add: ceiling_divide_eq_div zdiv_zminus1_eq_if)

lemma copy_rows_ok:
  assumes ok: "\<And>h r. \<not> tgt_fails env h t r" and src: "src_rows env t = (rows, False)"
    and B: "0 < B" and tot: "tot \<noteq> 0"
  shows "\<exists>v st'. copy_rows env t B tot st = (Inr v, st')
      \<and> batch_num v = \<lceil>real_of_int (int (length rows)) / real_of_int B\<rceil>
      \<and> processed v = int (length rows)
      \<and> target st' = target st @ map (Pair t) rows"
proof -
  let ?v0 = "\<lparr>processed = 0, batch_num = 0, current_batch = ([]::'a list)\<rparr>"
  have "int (length (current_batch ?v0)) < B" using B by simp
  from stream_loop_ok[OF ok B tot this, of rows st] obtain v st1 where
    r: "stream_loop env t B tot rows ?v0 st = (Inr v, st1)"
    and a: "processed v + int (length (current_batch v)) = int (length rows)"
    and b: "int (length (current_batch v)) < B"
    and c: "processed v = B * batch_num v"
    and d: "target st1 @ map (Pair t) (current_batch v) = target st @ map (Pair t) rows"
    by auto
  let ?n = "int (length rows)"
  have q: "batch_num v = ?n div B" and m: "int (length (current_batch v)) = ?n mod B"
    using quotient_unique[of B "int (length (current_batch v))" "batch_num v" ?n] a b c B by simp_all
  have ceil: "\<lceil>real_of_int ?n / real_of_int B\<rceil> = ?n div B + (if ?n mod B = 0 then 0 else 1)"
    using ceiling_div_int[OF B, of ?n] by simp
  show ?thesis
  proof (cases "current_batch v = []")
    case True
    then have "copy_rows env t B tot st = (Inr v, st1)"
      using r src by (simp add: copy_rows_def flush_tail_def)
    moreover have "?n mod B = 0" using m True by simp
    ultimately show ?thesis using a d q True ceil by simp
  next
    case False
    define v' where "v' = v\<lparr>processed := processed v + int (length (current_batch v)), batch_num := batch_num v + 1\<rparr>"
    define st2 where "st2 = (let s = st1\<lparr>target := target st1 @ map (Pair t) (current_batch v)\<rparr> in
        if enable_resume env then save_checkpoint env t (processed v + int (length (current_batch v))) tot B s else s)"
    have "copy_rows env t B tot st = (Inr v', st2)"
      using r src False tot
      by (simp add: copy_rows_def flush_tail_def insert_batch_ok[OF ok] progress_def Let_def v'_def st2_def)
    moreover have "?n mod B \<noteq> 0" using m False by (metis length_0_conv of_nat_eq_0_iff)
    moreover have "target st2 = target st @ map (Pair t) rows" using d by (simp add: st2_def Let_def)
    ultimately show ?thesis using a q ceil by (simp add: v'_def)
  qed
qed

text \<open>
  Claim C1. When no insert raises, the cursor yields the rows \<open>rows\<close> and ends, and
  the batch size \<open>B\<close> is positive, the copy of a table (whose count is not zero and
  whose sample row exists) flushes exactly \<open>\<lceil>length rows / B\<rceil>\<close> batches, counts
  \<open>length rows\<close> processed rows, returns True, and appends to the target exactly the
  rows of the stream, each once and in order.
\<close>

theorem copy_table_data_flushes:
  assumes "\<forall>h r. \<not> tgt_fails env h t r"
    and "src_rows env t = (rows, False)"
    and "0 < B"
    and "src_count env t = Some tot" and "tot \<noteq> 0"
    and "src_sample env t = Some (Some s)"
    and "fst (report_checkpoint env t st) = Inr ()"
  shows "\<exists>v st1 st'.
      copy_rows env t B tot (snd (report_checkpoint env t st)) = (Inr v, st1)
      \<and> batch_num v = \<lceil>real_of_int (int (length rows)) / real_of_int B\<rceil>
      \<and> processed v = int (length rows)
      \<and> copy_table_data env t B st = (True, st')
      \<and> target st' = target st @ map (Pair t) rows"
proof -
  obtain st0 where rep: "report_checkpoint env t st = (Inr (), st0)"
    using assms(7) by (cases "report_checkpoint env t st") auto
  have t0: "target st0 = target st"
    using target_report_checkpoint[of env t st] rep by simp
  from assms(1) have ok: "\<And>h r. \<not> tgt_fails env h t r" by simp
  from copy_rows_ok[OF ok assms(2) assms(3) assms(5), of st0] obtain v st1 where
    r: "copy_rows env t B tot st0 = (Inr v, st1)"
    and bn: "batch_num v = \<lceil>real_of_int (int (length rows)) / real_of_int B\<rceil>"
    and pc: "processed v = int (length rows)"
    and tg: "target st1 = target st0 @ map (Pair t) rows"
    by blast
  obtain st' where c: "copy_table_data env t B st = (True, st')" and "target st' = target st1"
    using rep r assms(4,5,6)
    by (simp add: copy_table_data_def copy_table_body_def Let_def)
  with r bn pc tg t0 rep show ?thesis by simp
qed

theorem copy_table_data_flushes_witness:
  "\<exists>v st1 st'.
      copy_rows demo_env ''orders'' 2 3 (snd (report_checkpoint demo_env ''orders'' demo_state))
        = (Inr v, st1)
      \<and> batch_num v = 2 \<and> processed v = 3
      \<and> copy_table_data demo_env ''orders'' 2 demo_state = (True, st')
      \<and> target st' = [(''orders'', 1), (''orders'', 2), (''orders'', 3)]"
  using copy_table_data_flushes[of demo_env "''orders''" "[1, 2, 3]" 2 3 1 demo_state]
  by (simp add: demo_env_def demo_state_def report_checkpoint_def load_checkpoint_def)

section \<open>Loading a checkpoint\<close>

lemma dict_get_Some: "k \<in> set (map fst kvs) \<Longrightarrow> \<exists>v. dict_get kvs k = Some v"
proof -
  assume "k \<in> set (map fst kvs)"
  then have "k \<in> fst ` set (rev kvs)" by simp
  then have "map_of (rev kvs) k \<noteq> None" by (simp only: map_of_eq_None_iff not_not)
  then show ?thesis by (auto simp: dict_get_def)
qed

lemma Checkpoint_of_json_None:
  "Checkpoint_of_json data = None \<longleftrightarrow> \<not> has_checkpoint_keys data"
proof (cases data)
  case (JObj kvs)
  show ?thesis
  proof (cases "set (map fst kvs) = set Checkpoint_fields")
    case True
    then have m: "\<And>f. f \<in> set Checkpoint_fields \<Longrightarrow> f \<in> set (map fst kvs)" by simp
    have keys: "list_all (\<lambda>k. k \<in> set Checkpoint_fields) (map fst kvs)
           \<and> list_all (\<lambda>f. f \<in> set (map fst kvs)) Checkpoint_fields"
      using True by (auto simp: list_all_iff)
    have "''table_name'' \<in> set Checkpoint_fields" by (simp add: Checkpoint_fields_def)
    from dict_get_Some[OF m[OF this]] obtain a where a: "dict_get kvs ''table_name'' = Some a"
      by blast
    have "''processed_count'' \<in> set Checkpoint_fields" by (simp add: Checkpoint_fields_def)
    from dict_get_Some[OF m[OF this]] obtain b where b: "dict_get kvs ''processed_count'' = Some b"
      by blast
    have "''total_count'' \<in> set Checkpoint_fields" by (simp add: Checkpoint_fields_def)
    from dict_get_Some[OF m[OF this]] obtain c where c: "dict_get kvs ''total_count'' = Some c"
      by blast
    have "''timestamp'' \<in> set Checkpoint_fields" by (simp add: Checkpoint_fields_def)
    from dict_get_Some[OF m[OF this]] obtain d where d: "dict_get kvs ''timestamp'' = Some d"
      by blast
    have "''batch_size'' \<in> set Checkpoint_fields" by (simp add: Checkpoint_fields_def)
    from dict_get_Some[OF m[OF this]] obtain e where e: "dict_get kvs ''batch_size'' = Some e"
      by blast
    have "Checkpoint_of_json data \<noteq> None"
      using keys a b c d e by (simp add: Checkpoint_of_json_def JObj)
    then show ?thesis using True by (simp add: has_checkpoint_keys_def JObj)
  next
    case False
    then have "\<not> (list_all (\<lambda>k. k \<in> set Checkpoint_fields) (map fst kvs)
           \<and> list_all (\<lambda>f. f \<in> set (map fst kvs)) Checkpoint_fields)"
      by (auto simp: list_all_iff)
    then have "Checkpoint_of_json data = None"
      unfolding Checkpoint_of_json_def JObj by (simp only: json.case if_False)
    then show ?thesis using False by (simp add: has_checkpoint_keys_def JObj)
  qed
qed (simp_all add: Checkpoint_of_json_def has_checkpoint_keys_def)

text \<open>
  Claim C7, amended. \<^verbatim>\<open>load_checkpoint\<close> has no exceptional result, and it returns
  \<open>None\<close> exactly when there is no file, the file cannot be read, the file is not JSON,
  or the JSON value is not an object whose keys are the five fields of a checkpoint.
  (The values of the fields are not checked: see the counterexample.)
\<close>

theorem load_checkpoint_none_iff:
  "fst (load_checkpoint t st) = None \<longleftrightarrow>
     (files st t = None \<or> files st t = Some Unreadable \<or> files st t = Some NotJson
      \<or> (\<exists>data. files st t = Some (Doc data) \<and> \<not> has_checkpoint_keys data))"
proof (cases "files st t")
  case None
  then show ?thesis by (simp add: load_checkpoint_def)
next
  case (Some f)
  show ?thesis
  proof (cases f)
    case (Doc data)
    show ?thesis
      using Checkpoint_of_json_None[of data]
      by (auto simp: load_checkpoint_def Some Doc split: option.splits)
  qed (simp_all add: load_checkpoint_def Some)
qed

theorem load_checkpoint_none_iff_witness:
  "fst (load_checkpoint ''orders'' (demo_state\<lparr>files := (\<lambda>t. Some NotJson)\<rparr>)) = None
   \<and> fst (load_checkpoint ''orders'' (demo_state\<lparr>files := (\<lambda>t. Some (Doc (JArr [])))\<rparr>)) = None"
  using load_checkpoint_none_iff[of "''orders''" "demo_state\<lparr>files := (\<lambda>t. Some NotJson)\<rparr>"]
        load_checkpoint_none_iff[of "''orders''" "demo_state\<lparr>files := (\<lambda>t. Some (Doc (JArr [])))\<rparr>"]
  by (simp add: has_checkpoint_keys_def)

text \<open>
  The claim as stated fails on a record whose fields have the right names and a value
  of the wrong type: the record is returned, not \<open>None\<close>, and the report of the
  previous progress then raises inside the copy, which fails the table.
\<close>

theorem load_checkpoint_malformed_counterexample:
  "fst (load_checkpoint ''orders'' bad_state)
     = Some \<lparr>table_name = JStr ''orders'', processed_count = JStr ''many'',
             total_count = JInt 3, timestamp = JStr ''2024-01-01T00:00:00'',
             batch_size = JInt 2\<rparr>
   \<and> \<not> Checkpoint_typed \<lparr>table_name = JStr ''orders'', processed_count = JStr ''many'',
             total_count = JInt 3, timestamp = JStr ''2024-01-01T00:00:00'',
             batch_size = JInt 2\<rparr>
   \<and> fst (copy_table_data demo_env ''orders'' 2 bad_state) = False
   \<and> errors (snd (copy_table_data demo_env ''orders'' 2 bad_state)) = 1"
  by (simp add: load_checkpoint_def bad_state_def bad_doc_def demo_state_def demo_env_def
      Checkpoint_of_json_def Checkpoint_fields_def dict_get_def copy_table_data_def
      copy_table_body_def report_checkpoint_def logger_def Checkpoint_typed_def)

section \<open>The effect of a copy on the state\<close>

lemma insert_batch_result:
  "insert_batch env t rs st = (res, st') \<Longrightarrow>
     \<exists>k. k \<le> length rs \<and> st' = st\<lparr>target := target st @ map (Pair t) (take k rs)\<rparr>
        \<and> (case res of Inr u \<Rightarrow> k = length rs
            | Inl e \<Rightarrow> e = WriteError \<and> k < length rs \<and> tgt_fails env (target st') t (rs ! k))"
proof (induction rs arbitrary: st)
  case Nil
  then show ?case by auto
next
  case (Cons r rs)
  show ?case
  proof (cases "tgt_fails env (target st) t r")
    case True
    with Cons.prems have "res = Inl WriteError" "st' = st"
      by (simp_all add: tgt_execute_def)
    with True show ?thesis by (intro exI[of _ 0]) simp
  next
    case False
    let ?st1 = "st\<lparr>target := target st @ [(t, r)]\<rparr>"
    from False Cons.prems have "insert_batch env t rs ?st1 = (res, st')"
      by (simp add: tgt_execute_def)
    from Cons.IH[OF this] obtain k where k: "k \<le> length rs"
      and s: "st' = ?st1\<lparr>target := target ?st1 @ map (Pair t) (take k rs)\<rparr>"
      and c: "(case res of Inr u \<Rightarrow> k = length rs
            | Inl e \<Rightarrow> e = WriteError \<and> k < length rs \<and> tgt_fails env (target st') t (rs ! k))"
      by blast
    show ?thesis
      using k s c by (intro exI[of _ "Suc k"]) (auto split: sum.splits)
  qed
qed

lemma extends_refl: "extends st t [] [] st"
  by (simp add: extends_def)

lemma extends_logger: "extends st t [] [] (logger l st)"
  by (simp add: extends_def logger_def)

lemma extends_trans:
  "extends st t ws cs st1 \<Longrightarrow> extends st1 t ws' cs' st2 \<Longrightarrow> extends st t (ws @ ws') (cs @ cs') st2"
  by (auto simp: extends_def)

lemma ckpt_for_mono:
  "ckpt_for t tot B lo hi c \<Longrightarrow> lo' \<le> lo \<Longrightarrow> hi \<le> hi' \<Longrightarrow> ckpt_for t tot B lo' hi' c"
  by (auto simp: ckpt_for_def split: json.splits)

lemma insert_batch_extends:
  assumes "insert_batch env t rs st = (res, st')"
  shows "\<exists>k. k \<le> length rs \<and> extends st t (take k rs) [] st'
        \<and> (case res of Inr u \<Rightarrow> k = length rs
            | Inl e \<Rightarrow> e = WriteError \<and> k < length rs \<and> tgt_fails env (target st') t (rs ! k))"
proof -
  from insert_batch_result[OF assms] obtain k where k: "k \<le> length rs"
    and s: "st' = st\<lparr>target := target st @ map (Pair t) (take k rs)\<rparr>"
    and c: "(case res of Inr u \<Rightarrow> k = length rs
            | Inl e \<Rightarrow> e = WriteError \<and> k < length rs \<and> tgt_fails env (target st') t (rs ! k))"
    by blast
  have "extends st t (take k rs) [] st'" by (simp add: s extends_def)
  with k c show ?thesis by blast
qed

lemma save_checkpoint_extends:
  "\<exists>cs. extends st t [] cs (save_checkpoint env t pc tot B st)
     \<and> list_all (ckpt_for t tot B pc pc) cs
     \<and> (cs = [] \<longleftrightarrow> fs_fails env t) \<and> length cs \<le> 1"
proof (cases "fs_fails env t")
  case True
  then have "extends st t [] [] (save_checkpoint env t pc tot B st)"
    by (simp add: save_checkpoint_def extends_logger)
  with True show ?thesis by (intro exI[of _ "[]"]) simp
next
  case False
  let ?c = "\<lparr>table_name = JStr t, processed_count = JInt pc, total_count = JInt tot,
             timestamp = JStr (now env (length (ckpt_ops st))), batch_size = JInt B\<rparr>"
  have "extends st t [] [?c] (save_checkpoint env t pc tot B st)"
    using False by (simp add: save_checkpoint_def extends_def Let_def)
  moreover have "ckpt_for t tot B pc pc ?c" by (simp add: ckpt_for_def)
  ultimately show ?thesis using False by (intro exI[of _ "[?c]"]) simp
qed

text \<open>What the loop does to the state, whatever its outcome.\<close>

lemma stream_loop_extends:
  fixes env :: "'r env"
  shows "stream_loop env t B tot rows v st = (res, st') \<Longrightarrow>
     \<exists>ws cs. extends st t ws cs st'
       \<and> list_all (ckpt_for t tot B (processed v)
             (processed v + int (length (current_batch v)) + int (length rows))) cs
       \<and> (case res of
             Inr v' \<Rightarrow>
               processed v' + int (length (current_batch v'))
                 = processed v + int (length (current_batch v)) + int (length rows)
               \<and> int (length ws) = processed v' - processed v
           | Inl e \<Rightarrow> (e = WriteError \<and> (\<exists>r. tgt_fails env (target st') t r))
                      \<or> (e = ZeroDivisionError \<and> tot = 0))"
proof (induction rows arbitrary: v st)
  case Nil
  then have "res = Inr v" "st' = st" by simp_all
  then show ?case
    by (intro exI[of _ "[]"]) (simp add: extends_refl)
next
  case (Cons row rows)
  let ?cur = "current_batch v @ [row]"
  let ?hi = "processed v + int (length (current_batch v)) + int (length (row # rows))"
  show ?case
  proof (cases "B \<le> int (length ?cur)")
    case False
    let ?v1 = "v\<lparr>current_batch := ?cur\<rparr>"
    from False Cons.prems have "stream_loop env t B tot rows ?v1 st = (res, st')"
      by (simp add: Let_def)
    from Cons.IH[OF this] obtain ws cs where e: "extends st t ws cs st'"
      and c: "list_all (ckpt_for t tot B (processed ?v1)
             (processed ?v1 + int (length (current_batch ?v1)) + int (length rows))) cs"
      and r: "(case res of
             Inr v' \<Rightarrow>
               processed v' + int (length (current_batch v'))
                 = processed ?v1 + int (length (current_batch ?v1)) + int (length rows)
               \<and> int (length ws) = processed v' - processed ?v1
           | Inl e \<Rightarrow> (e = WriteError \<and> (\<exists>r. tgt_fails env (target st') t r))
                      \<or> (e = ZeroDivisionError \<and> tot = 0))"
      by blast
    have c': "list_all (ckpt_for t tot B (processed v) ?hi) cs"
      using c by (auto simp: list_all_iff intro: ckpt_for_mono)
    have r': "(case res of
             Inr v' \<Rightarrow>
               processed v' + int (length (current_batch v')) = ?hi
               \<and> int (length ws) = processed v' - processed v
           | Inl e \<Rightarrow> (e = WriteError \<and> (\<exists>r. tgt_fails env (target st') t r))
                      \<or> (e = ZeroDivisionError \<and> tot = 0))"
      using r by (auto split: sum.splits)
    show ?thesis using e c' r' by blast
  next
    case True
    obtain r1 st1 where ib: "insert_batch env t ?cur st = (r1, st1)"
      by (cases "insert_batch env t ?cur st")
    from insert_batch_extends[OF ib] obtain k where k: "k \<le> length ?cur"
      and e1: "extends st t (take k ?cur) [] st1"
      and c1: "(case r1 of Inr u \<Rightarrow> k = length ?cur
            | Inl e \<Rightarrow> e = WriteError \<and> k < length ?cur \<and> tgt_fails env (target st1) t (?cur ! k))"
      by blast
    show ?thesis
    proof (cases r1)
      case (Inl e)
      with Cons.prems True ib have "res = Inl e" "st' = st1"
        by (simp_all add: Let_def del: insert_batch.simps)
      with e1 c1 Inl show ?thesis
        by (intro exI[of _ "take k ?cur"] exI[of _ "[]"]) auto
    next
      case (Inr u)
      with c1 have kk: "take k ?cur = ?cur" by simp
      let ?pc = "processed v + int (length ?cur)"
      let ?bn = "batch_num v + 1"
      let ?st2 = "if enable_resume env \<and> ?bn mod 10 = 0
                  then save_checkpoint env t ?pc tot B st1 else st1"
      let ?v1 = "\<lparr>processed = ?pc, batch_num = ?bn, current_batch = ([]::'r list)\<rparr>"
      have "\<exists>cs. extends st1 t [] cs ?st2 \<and> list_all (ckpt_for t tot B ?pc ?pc) cs"
        using save_checkpoint_extends[of st1 t env ?pc tot B] extends_refl[of st1 t]
        by (cases "enable_resume env \<and> ?bn mod 10 = 0") auto
      then obtain cs2 where e2: "extends st1 t [] cs2 ?st2"
        and c2: "list_all (ckpt_for t tot B ?pc ?pc) cs2" by blast
      have e12: "extends st t ?cur cs2 ?st2"
        using extends_trans[OF e1 e2] kk by simp
      have c2': "list_all (ckpt_for t tot B (processed v) ?hi) cs2"
        using c2 by (auto simp: list_all_iff intro: ckpt_for_mono)
      show ?thesis
      proof (cases "tot = 0")
        case True
        with Cons.prems \<open>B \<le> int (length ?cur)\<close> ib Inr have "res = Inl ZeroDivisionError" "st' = ?st2"
          by (auto simp add: Let_def progress_def simp del: insert_batch.simps)
        with e12 c2' True show ?thesis
          by (intro exI[of _ ?cur] exI[of _ cs2]) simp
      next
        case False
        with Cons.prems \<open>B \<le> int (length ?cur)\<close> ib Inr
        have "stream_loop env t B tot rows ?v1 ?st2 = (res, st')"
          by (auto simp add: Let_def progress_def simp del: insert_batch.simps split: if_splits)
        from Cons.IH[OF this] obtain ws cs where e3: "extends ?st2 t ws cs st'"
          and c3: "list_all (ckpt_for t tot B (processed ?v1)
                (processed ?v1 + int (length (current_batch ?v1)) + int (length rows))) cs"
          and r3: "(case res of
             Inr v' \<Rightarrow>
               processed v' + int (length (current_batch v'))
                 = processed ?v1 + int (length (current_batch ?v1)) + int (length rows)
               \<and> int (length ws) = processed v' - processed ?v1
           | Inl e \<Rightarrow> (e = WriteError \<and> (\<exists>r. tgt_fails env (target st') t r))
                      \<or> (e = ZeroDivisionError \<and> tot = 0))"
          by blast
        have e: "extends st t (?cur @ ws) (cs2 @ cs) st'"
          using extends_trans[OF e12 e3] .
        have c3': "list_all (ckpt_for t tot B (processed v) ?hi) cs"
          using c3 by (auto simp: list_all_iff intro: ckpt_for_mono)
        have r: "(case res of
             Inr v' \<Rightarrow>
               processed v' + int (length (current_batch v')) = ?hi
               \<and> int (length (?cur @ ws)) = processed v' - processed v
           | Inl e \<Rightarrow> (e = WriteError \<and> (\<exists>r. tgt_fails env (target st') t r))
                      \<or> (e = ZeroDivisionError \<and> tot = 0))"
          using r3 by (auto split: sum.splits)
        show ?thesis
          using e c2' c3' r by (intro exI[of _ "?cur @ ws"] exI[of _ "cs2 @ cs"]) simp
      qed
    qed
  qed
qed

lemma flush_tail_extends:
  assumes "flush_tail env t B tot v st = (res, st')"
  shows "\<exists>ws cs. extends st t ws cs st'
       \<and> list_all (ckpt_for t tot B (processed v + int (length (current_batch v)))
             (processed v + int (length (current_batch v)))) cs
       \<and> (case res of
             Inr v' \<Rightarrow> processed v' = processed v + int (length (current_batch v))
                      \<and> int (length ws) = processed v' - processed v
           | Inl e \<Rightarrow> (e = WriteError \<and> (\<exists>r. tgt_fails env (target st') t r))
                      \<or> (e = ZeroDivisionError \<and> tot = 0))"
proof (cases "current_batch v = []")
  case True
  with assms have "res = Inr v" "st' = st" by (simp_all add: flush_tail_def)
  with True show ?thesis
    by (intro exI[of _ "[]"]) (simp add: extends_refl)
next
  case False
  let ?cur = "current_batch v"
  let ?pc = "processed v + int (length ?cur)"
  obtain r1 st1 where ib: "insert_batch env t ?cur st = (r1, st1)"
    by (cases "insert_batch env t ?cur st")
  from insert_batch_extends[OF ib] obtain k where k: "k \<le> length ?cur"
    and e1: "extends st t (take k ?cur) [] st1"
    and c1: "(case r1 of Inr u \<Rightarrow> k = length ?cur
          | Inl e \<Rightarrow> e = WriteError \<and> k < length ?cur \<and> tgt_fails env (target st1) t (?cur ! k))"
    by blast
  show ?thesis
  proof (cases r1)
    case (Inl e)
    with assms False ib have "res = Inl e" "st' = st1"
      by (simp_all add: flush_tail_def)
    with e1 c1 Inl show ?thesis
      by (intro exI[of _ "take k ?cur"] exI[of _ "[]"]) auto
  next
    case (Inr u)
    with c1 have kk: "take k ?cur = ?cur" by simp
    let ?st2 = "if enable_resume env then save_checkpoint env t ?pc tot B st1 else st1"
    have "\<exists>cs. extends st1 t [] cs ?st2 \<and> list_all (ckpt_for t tot B ?pc ?pc) cs"
      using save_checkpoint_extends[of st1 t env ?pc tot B] extends_refl[of st1 t]
      by (cases "enable_resume env") auto
    then obtain cs2 where e2: "extends st1 t [] cs2 ?st2"
      and c2: "list_all (ckpt_for t tot B ?pc ?pc) cs2" by blast
    have e12: "extends st t ?cur cs2 ?st2"
      using extends_trans[OF e1 e2] kk by simp
    have r: "res = (if tot = 0 then Inl ZeroDivisionError
                    else Inr (v\<lparr>processed := ?pc, batch_num := batch_num v + 1\<rparr>))"
      and s: "st' = ?st2"
      using assms False ib Inr
      by (auto simp add: flush_tail_def Let_def progress_def split: if_splits)
    show ?thesis
      using e12 c2 r s by (intro exI[of _ ?cur] exI[of _ cs2]) simp
  qed
qed

text \<open>What the copy of the rows does to the state, whatever its outcome.\<close>

lemma copy_rows_extends:
  fixes env :: "'r env"
  assumes "copy_rows env t B tot st = (res, st')"
  shows "\<exists>ws cs. extends st t ws cs st'
       \<and> list_all (ckpt_for t tot B 0 (int (length (fst (src_rows env t))))) cs
       \<and> (case res of
             Inr v \<Rightarrow> processed v = int (length (fst (src_rows env t)))
                      \<and> int (length ws) = processed v
           | Inl e \<Rightarrow> (e = WriteError \<and> (\<exists>r. tgt_fails env (target st') t r))
                      \<or> (e = ZeroDivisionError \<and> tot = 0)
                      \<or> (e = SourceError \<and> snd (src_rows env t)))"
proof -
  let ?rows = "fst (src_rows env t)"
  let ?n = "int (length ?rows)"
  let ?v0 = "\<lparr>processed = 0, batch_num = 0, current_batch = ([]::'r list)\<rparr>"
  obtain r1 st1 where sl: "stream_loop env t B tot ?rows ?v0 st = (r1, st1)"
    by (cases "stream_loop env t B tot ?rows ?v0 st")
  from stream_loop_extends[OF sl] obtain ws cs where e1: "extends st t ws cs st1"
    and c1: "list_all (ckpt_for t tot B (processed ?v0)
             (processed ?v0 + int (length (current_batch ?v0)) + ?n)) cs"
    and r1: "(case r1 of
             Inr v' \<Rightarrow>
               processed v' + int (length (current_batch v'))
                 = processed ?v0 + int (length (current_batch ?v0)) + ?n
               \<and> int (length ws) = processed v' - processed ?v0
           | Inl e \<Rightarrow> (e = WriteError \<and> (\<exists>r. tgt_fails env (target st1) t r))
                      \<or> (e = ZeroDivisionError \<and> tot = 0))"
    by blast
  have c1': "list_all (ckpt_for t tot B 0 ?n) cs" using c1 by simp
  show ?thesis
  proof (cases r1)
    case (Inl e)
    with assms sl have "res = Inl e" "st' = st1" by (simp_all add: copy_rows_def)
    with e1 c1' r1 Inl show ?thesis by auto
  next
    case (Inr v)
    with r1 have sum: "processed v + int (length (current_batch v)) = ?n"
      and lw: "int (length ws) = processed v" by simp_all
    show ?thesis
    proof (cases "snd (src_rows env t)")
      case True
      with assms sl Inr have "res = Inl SourceError" "st' = st1"
        by (simp_all add: copy_rows_def)
      with e1 c1' True show ?thesis by auto
    next
      case False
      with assms sl Inr have ft: "flush_tail env t B tot v st1 = (res, st')"
        by (simp add: copy_rows_def)
      from flush_tail_extends[OF ft] obtain ws2 cs2 where e2: "extends st1 t ws2 cs2 st'"
        and c2: "list_all (ckpt_for t tot B (processed v + int (length (current_batch v)))
             (processed v + int (length (current_batch v)))) cs2"
        and r2: "(case res of
             Inr v' \<Rightarrow> processed v' = processed v + int (length (current_batch v))
                      \<and> int (length ws2) = processed v' - processed v
           | Inl e \<Rightarrow> (e = WriteError \<and> (\<exists>r. tgt_fails env (target st') t r))
                      \<or> (e = ZeroDivisionError \<and> tot = 0))"
        by blast
      have e: "extends st t (ws @ ws2) (cs @ cs2) st'" using extends_trans[OF e1 e2] .
      have c2': "list_all (ckpt_for t tot B 0 ?n) cs2"
        using c2 sum by (auto simp: list_all_iff intro: ckpt_for_mono)
      have r: "(case res of
             Inr v \<Rightarrow> processed v = ?n \<and> int (length (ws @ ws2)) = processed v
           | Inl e \<Rightarrow> (e = WriteError \<and> (\<exists>r. tgt_fails env (target st') t r))
                      \<or> (e = ZeroDivisionError \<and> tot = 0)
                      \<or> (e = SourceError \<and> snd (src_rows env t)))"
        using r2 sum lw by (auto split: sum.splits)
      show ?thesis using e c1' c2' r
        by (intro exI[of _ "ws @ ws2"] exI[of _ "cs @ cs2"]) simp
    qed
  qed
qed

lemma load_checkpoint_extends: "extends st t [] [] (snd (load_checkpoint t st))"
  by (simp add: load_checkpoint_def extends_refl extends_logger
      split: option.splits ckpt_file.splits)

lemma report_checkpoint_extends:
  assumes "report_checkpoint env t st = (r, st1)"
  shows "extends st t [] [] st1" and "r = Inr () \<or> r = Inl FormatError"
proof -
  obtain c st0 where l: "load_checkpoint t st = (c, st0)" by (cases "load_checkpoint t st")
  then have e: "extends st t [] [] st0" using load_checkpoint_extends[of st t] by simp
  have "st1 = st \<or> st1 = st0"
    using assms l by (auto simp: report_checkpoint_def split: if_splits option.splits)
  with e show "extends st t [] [] st1" by (auto simp: extends_refl)
  show "r = Inr () \<or> r = Inl FormatError"
    using assms l by (auto simp: report_checkpoint_def split: if_splits option.splits)
qed

lemma finish_copy_fields:
  "target (finish_copy env t v st2) = target st2"
  "errors (finish_copy env t v st2) = errors st2"
  "running (finish_copy env t v st2) = running st2"
  "tables_processed (finish_copy env t v st2) = tables_processed st2 + 1"
  "records_processed (finish_copy env t v st2) = records_processed st2 + processed v"
  "ckpt_ops (finish_copy env t v st2) = ckpt_ops st2 @
      (if enable_resume env \<and> files st2 t \<noteq> None \<and> \<not> fs_fails env t then [Cleared t] else [])"
  by (auto simp: finish_copy_def Let_def clear_checkpoint_def logger_def split: option.splits)

lemma copy_table_body_cases:
  assumes "copy_table_body env t B st = (res, st')"
  obtains
    (early) e where "res = Inl e" and "e \<noteq> WriteError" and "extends st t [] [] st'"
  | (nothing) "res = Inr True" and "extends st t [] [] st'"
       and "src_count env t = Some 0 \<or> src_sample env t = Some None"
  | (rows) tot st0 e where "src_count env t = Some tot" and "tot \<noteq> 0"
       and "extends st t [] [] st0" and "copy_rows env t B tot st0 = (Inl e, st')"
       and "res = Inl e"
  | (copied) tot st0 v st2 where "src_count env t = Some tot" and "tot \<noteq> 0"
       and "extends st t [] [] st0" and "copy_rows env t B tot st0 = (Inr v, st2)"
       and "res = Inr True" and "st' = finish_copy env t v st2"
proof -
  obtain r st0 where rep: "report_checkpoint env t st = (r, st0)"
    by (cases "report_checkpoint env t st")
  note e0 = report_checkpoint_extends[OF rep]
  have el: "extends st t [] [] (logger WARNING st0)"
    using extends_trans[OF e0(1) extends_logger[of st0 t WARNING]] by simp
  show thesis
  proof (cases r)
    case (Inl e)
    with e0(2) have "e = FormatError" by simp
    with assms rep Inl have "res = Inl FormatError" "st' = st0"
      by (simp_all add: copy_table_body_def)
    with e0(1) show thesis by - (rule early[of FormatError], simp_all)
  next
    case (Inr u)
    show thesis
    proof (cases "src_count env t")
      case None
      with assms rep Inr have "res = Inl SourceError" "st' = st0"
        by (simp_all add: copy_table_body_def)
      with e0(1) show thesis by - (rule early[of SourceError], simp_all)
    next
      case (Some tot)
      show thesis
      proof (cases "tot = 0")
        case True
        with assms rep Inr Some have "res = Inr True" "st' = logger WARNING st0"
          by (simp_all add: copy_table_body_def)
        with el True Some show thesis by - (rule nothing, simp_all)
      next
        case False
        show thesis
        proof (cases "src_sample env t")
          case None
          with assms rep Inr Some False have "res = Inl SourceError" "st' = st0"
            by (simp_all add: copy_table_body_def)
          with e0(1) show thesis by - (rule early[of SourceError], simp_all)
        next
          case sm: (Some sample)
          show thesis
          proof (cases sample)
            case None
            with assms rep Inr Some False sm have "res = Inr True" "st' = logger WARNING st0"
              by (simp_all add: copy_table_body_def)
            with el sm None show thesis by - (rule nothing, simp_all)
          next
            case (Some sample_row)
            obtain r2 st2 where cr: "copy_rows env t B tot st0 = (r2, st2)"
              by (cases "copy_rows env t B tot st0")
            show thesis
            proof (cases r2)
              case (Inl e)
              with assms rep Inr \<open>src_count env t = Some tot\<close> False sm Some cr
              have "res = Inl e" "st' = st2" by (simp_all add: copy_table_body_def)
              with cr Inl show thesis
                by - (rule rows[OF \<open>src_count env t = Some tot\<close> False e0(1), of e], simp_all)
            next
              case r2: (Inr v)
              with assms rep Inr \<open>src_count env t = Some tot\<close> False sm Some cr
              have "res = Inr True" "st' = finish_copy env t v st2"
                by (simp_all add: copy_table_body_def finish_copy_def Let_def)
              with cr r2 show thesis
                by - (rule copied[OF \<open>src_count env t = Some tot\<close> False e0(1), of v st2], simp_all)
            qed
          qed
        qed
      qed
    qed
  qed
qed

section \<open>The outcome of a copy and the statistics\<close>

lemma copy_table_data_cases:
  assumes "copy_table_data env t B st = (ok, st')"
  obtains
    (failed) e st1 where "copy_table_body env t B st = (Inl e, st1)" and "\<not> ok"
       and "st' = (logger ERROR st1)\<lparr>errors := errors st1 + 1\<rparr>"
  | (returned) "copy_table_body env t B st = (Inr ok, st')"
proof (cases "copy_table_body env t B st")
  case (Pair r st1)
  show thesis
  proof (cases r)
    case (Inl e)
    with assms Pair have "\<not> ok" "st' = (logger ERROR st1)\<lparr>errors := errors st1 + 1\<rparr>"
      by (simp_all add: copy_table_data_def)
    with Pair Inl show thesis by - (rule failed[of e st1], simp_all)
  next
    case (Inr b)
    with assms Pair have "b = ok" "st1 = st'" by (simp_all add: copy_table_data_def)
    with Pair Inr show thesis by - (rule returned, simp)
  qed
qed

lemma copy_table_body_Inl:
  assumes "copy_table_body env t B st = (Inl e, st1)"
  shows "\<exists>ws cs. extends st t ws cs st1 \<and> (e = WriteError \<longrightarrow> (\<exists>r. tgt_fails env (target st1) t r))"
  using assms
proof (cases rule: copy_table_body_cases)
  case (early e')
  then show ?thesis by auto
next
  case nothing
  then show ?thesis by simp
next
  case (rows tot st0 e')
  from copy_rows_extends[OF rows(4)] obtain ws cs where e1: "extends st0 t ws cs st1"
    and r: "(e' = WriteError \<and> (\<exists>r. tgt_fails env (target st1) t r))
            \<or> (e' = ZeroDivisionError \<and> tot = 0) \<or> (e' = SourceError \<and> snd (src_rows env t))"
    by auto
  have "extends st t ws cs st1" using extends_trans[OF rows(3) e1] by simp
  moreover have "e = WriteError \<longrightarrow> (\<exists>r. tgt_fails env (target st1) t r)"
    using r rows(5) by auto
  ultimately show ?thesis by blast
next
  case (copied tot st0 v st2)
  then show ?thesis by simp
qed

lemma copy_table_body_Inr:
  assumes "copy_table_body env t B st = (Inr b, st')"
  shows "b \<and> errors st' = errors st \<and> running st' = running st
     \<and> records_processed st' = records_processed st + (int (length (target st')) - int (length (target st)))"
  using assms
proof (cases rule: copy_table_body_cases)
  case (early e')
  then show ?thesis by simp
next
  case nothing
  then show ?thesis by (simp add: extends_def)
next
  case (rows tot st0 e')
  then show ?thesis by simp
next
  case (copied tot st0 v st2)
  from copy_rows_extends[OF copied(4)] obtain ws cs where e1: "extends st0 t ws cs st2"
    and r: "int (length ws) = processed v"
    by auto
  have e: "extends st t ws cs st2" using extends_trans[OF copied(3) e1] by simp
  then show ?thesis using r copied(5,6)
    by (simp add: finish_copy_fields extends_def)
qed

lemma copy_table_data_stats:
  assumes "copy_table_data env t B st = (ok, st')"
  shows "(\<not> ok \<longrightarrow> tables_processed st' = tables_processed st
                \<and> records_processed st' = records_processed st)
       \<and> (ok \<longrightarrow> records_processed st'
                  = records_processed st + (int (length (target st')) - int (length (target st))))"
  using assms
proof (cases rule: copy_table_data_cases)
  case (failed e st1)
  from copy_table_body_Inl[OF failed(1)] obtain ws cs where "extends st t ws cs st1" by blast
  with failed(2,3) show ?thesis by (simp add: extends_def logger_def)
next
  case returned
  from copy_table_body_Inr[OF returned] show ?thesis by simp
qed

lemma records_processed_validate [simp]:
  "records_processed (snd (validate_data_integrity_detailed env t st)) = records_processed st"
  by (simp add: validate_data_integrity_detailed_def Let_def logger_def split: option.splits)

lemma run_tables_records_processed:
  "records_processed (run_tables env B ts st)
     = records_processed st + sum_list (successful_row_counts env B ts st)"
proof (induction ts arbitrary: st)
  case Nil
  show ?case by simp
next
  case (Cons t ts)
  show ?case
  proof (cases "running st")
    case False
    then show ?thesis by simp
  next
    case True
    obtain ok st1 where c: "copy_table_data env t B st = (ok, st1)"
      by (cases "copy_table_data env t B st")
    note s = copy_table_data_stats[OF c]
    let ?st2 = "st1\<lparr>running := \<not> interrupts env t\<rparr>"
    show ?thesis
    proof (cases ok)
      case False
      with True c s Cons.IH[of "logger ERROR ?st2"] show ?thesis
        by (simp add: Let_def logger_def)
    next
      case ok: True
      with True c s Cons.IH[of "snd (validate_data_integrity_detailed env t ?st2)"]
      show ?thesis by (simp add: Let_def)
    qed
  qed
qed

text \<open>
  Claim C10. A copy that returns False leaves \<open>tables_processed\<close> and
  \<open>records_processed\<close> as they were, whatever it has written to the target; a copy
  that returns True adds to \<open>records_processed\<close> exactly the number of rows it has
  written to the target; and over a run \<open>records_processed\<close> grows by the sum of the
  numbers of rows written by the copies that returned True.
\<close>

theorem stats_count_successful_copies_only:
  "(\<not> fst (copy_table_data env t B st) \<longrightarrow>
        tables_processed (snd (copy_table_data env t B st)) = tables_processed st
      \<and> records_processed (snd (copy_table_data env t B st)) = records_processed st)
   \<and> (fst (copy_table_data env t B st) \<longrightarrow>
        records_processed (snd (copy_table_data env t B st))
          = records_processed st
            + (int (length (target (snd (copy_table_data env t B st))))
               - int (length (target st))))
   \<and> records_processed (run_tables env B ts st)
        = records_processed st + sum_list (successful_row_counts env B ts st)"
  using copy_table_data_stats[of env t B st "fst (copy_table_data env t B st)"
          "snd (copy_table_data env t B st)"]
        run_tables_records_processed[of env B ts st]
  by simp

theorem stats_count_successful_copies_only_witness:
  "fst (copy_table_data mixed_env ''orders'' 2 demo_state) = False
   \<and> target (snd (copy_table_data mixed_env ''orders'' 2 demo_state))
       = [(''orders'', 1), (''orders'', 2)]
   \<and> tables_processed (snd (copy_table_data mixed_env ''orders'' 2 demo_state)) = 0
   \<and> records_processed (snd (copy_table_data mixed_env ''orders'' 2 demo_state)) = 0
   \<and> fst (copy_table_data mixed_env ''items'' 2 demo_state) = True
   \<and> records_processed (snd (copy_table_data mixed_env ''items'' 2 demo_state)) = 3
   \<and> records_processed (run_tables mixed_env 2 [''orders'', ''items''] demo_state) = 3
   \<and> length (target (run_tables mixed_env 2 [''orders'', ''items''] demo_state)) = 5"
  using stats_count_successful_copies_only[of mixed_env "''orders''" 2 demo_state
          "[''orders'', ''items'']"]
        stats_count_successful_copies_only[of mixed_env "''items''" 2 demo_state "[]"]
  by (simp add: mixed_env_def demo_env_def demo_state_def copy_table_data_def
      copy_table_body_def report_checkpoint_def load_checkpoint_def copy_rows_def
      flush_tail_def tgt_execute_def progress_def save_checkpoint_def clear_checkpoint_def
      get_performance_metrics_def validate_data_integrity_detailed_def logger_def Let_def)

section \<open>A failing insert ends the copy\<close>

lemma first_failure_iff:
  "first_failure env t h rows k \<longleftrightarrow>
     k < length rows
     \<and> tgt_fails env (h @ map (Pair t) (take k rows)) t (rows ! k)
     \<and> (\<forall>j<k. \<not> tgt_fails env (h @ map (Pair t) (take j rows)) t (rows ! j))"
  by (auto simp: first_failure_def list_all_iff)

lemma insert_batch_upto:
  "(\<And>j. j < length rs \<Longrightarrow> \<not> tgt_fails env (target st @ map (Pair t) (take j rs)) t (rs ! j))
   \<Longrightarrow> insert_batch env t rs st = (Inr (), st\<lparr>target := target st @ map (Pair t) rs\<rparr>)"
proof (induction rs arbitrary: st)
  case Nil
  show ?case by simp
next
  case (Cons r rs)
  from Cons.prems[of 0] have ok: "\<not> tgt_fails env (target st) t r" by simp
  let ?st1 = "st\<lparr>target := target st @ [(t, r)]\<rparr>"
  have "\<not> tgt_fails env (target ?st1 @ map (Pair t) (take j rs)) t (rs ! j)"
    if "j < length rs" for j
    using Cons.prems[of "Suc j"] that by simp
  from Cons.IH[of ?st1, OF this] ok show ?case
    by (simp add: tgt_execute_def)
qed

lemma insert_batch_first_failure:
  "first_failure env t (target st) rs k
   \<Longrightarrow> insert_batch env t rs st
       = (Inl WriteError, st\<lparr>target := target st @ map (Pair t) (take k rs)\<rparr>)"
proof (induction rs arbitrary: st k)
  case Nil
  then show ?case by (simp add: first_failure_iff)
next
  case (Cons r rs)
  show ?case
  proof (cases k)
    case 0
    with Cons.prems have "tgt_fails env (target st) t r" by (simp add: first_failure_iff)
    with 0 show ?thesis by (simp add: tgt_execute_def)
  next
    case (Suc k')
    from Cons.prems Suc have ok: "\<not> tgt_fails env (target st) t r"
      by (auto simp: first_failure_iff)
    let ?st1 = "st\<lparr>target := target st @ [(t, r)]\<rparr>"
    have "first_failure env t (target ?st1) rs k'"
      unfolding first_failure_iff
    proof (intro conjI allI impI)
      show "k' < length rs" using Cons.prems Suc by (simp add: first_failure_iff)
      show "tgt_fails env (target ?st1 @ map (Pair t) (take k' rs)) t (rs ! k')"
        using Cons.prems Suc by (simp add: first_failure_iff)
      fix j assume "j < k'"
      then have "Suc j < k" using Suc by simp
      moreover from Cons.prems
      have "\<forall>i<k. \<not> tgt_fails env (target st @ map (Pair t) (take i (r # rs))) t ((r # rs) ! i)"
        unfolding first_failure_iff by blast
      ultimately
      have "\<not> tgt_fails env (target st @ map (Pair t) (take (Suc j) (r # rs))) t ((r # rs) ! Suc j)"
        by blast
      then show "\<not> tgt_fails env (target ?st1 @ map (Pair t) (take j rs)) t (rs ! j)"
        by simp
    qed
    from Cons.IH[OF this] ok Suc show ?thesis
      by (simp add: tgt_execute_def)
  qed
qed

lemma first_failure_prefix:
  assumes "first_failure env t h (xs @ ys) k" and "k < length xs"
  shows "first_failure env t h xs k"
  unfolding first_failure_iff
proof (intro conjI allI impI)
  show "k < length xs" by fact
  show "tgt_fails env (h @ map (Pair t) (take k xs)) t (xs ! k)"
    using assms by (simp add: first_failure_iff nth_append)
  fix j assume "j < k"
  with assms show "\<not> tgt_fails env (h @ map (Pair t) (take j xs)) t (xs ! j)"
    by (simp add: first_failure_iff nth_append)
qed

lemma first_failure_no_failure_before:
  assumes "first_failure env t h (xs @ ys) k" and "length xs \<le> k" and "j < length xs"
  shows "\<not> tgt_fails env (h @ map (Pair t) (take j xs)) t (xs ! j)"
proof -
  from assms have "j < k" by simp
  with assms(1) have "\<not> tgt_fails env (h @ map (Pair t) (take j (xs @ ys))) t ((xs @ ys) ! j)"
    unfolding first_failure_iff by blast
  with assms(3) show ?thesis by (simp add: nth_append)
qed

lemma first_failure_suffix:
  assumes "first_failure env t h (xs @ ys) k" and "length xs \<le> k"
  shows "first_failure env t (h @ map (Pair t) xs) ys (k - length xs)"
  unfolding first_failure_iff
proof (intro conjI allI impI)
  show "k - length xs < length ys" using assms by (simp add: first_failure_iff) arith
  have "tgt_fails env (h @ map (Pair t) (take k (xs @ ys))) t ((xs @ ys) ! k)"
    using assms(1) by (simp add: first_failure_iff)
  then show "tgt_fails env ((h @ map (Pair t) xs) @ map (Pair t) (take (k - length xs) ys)) t
               (ys ! (k - length xs))"
    using assms(2) by (simp add: nth_append)
  fix j assume j: "j < k - length xs"
  then have "j + length xs < k" by arith
  with assms(1)
  have "\<not> tgt_fails env (h @ map (Pair t) (take (j + length xs) (xs @ ys))) t
            ((xs @ ys) ! (j + length xs))"
    unfolding first_failure_iff by blast
  then show "\<not> tgt_fails env ((h @ map (Pair t) xs) @ map (Pair t) (take j ys)) t (ys ! j)"
    by (simp add: nth_append)
qed

lemma loop_outcome_InrI:
  assumes "n \<le> k" and "target st' = h @ map (Pair t) (take n all)"
    and "first_failure env t (target st') (current_batch v') k'"
    and "take n all @ take k' (current_batch v') = take k all"
  shows "loop_outcome env t h all k (Inr v', st')"
  unfolding loop_outcome_def using assms by (simp only: prod.case sum.case) blast

lemma loop_outcome_shift:
  assumes "loop_outcome env t (h @ map (Pair t) xs) ys (k - length xs) out"
    and "length xs \<le> k"
  shows "loop_outcome env t h (xs @ ys) k out"
proof (cases out)
  case (Pair res st')
  show ?thesis
  proof (cases res)
    case (Inl e)
    with assms Pair show ?thesis by (simp add: loop_outcome_def)
  next
    case (Inr v')
    with assms(1) Pair obtain n k' where n: "n \<le> k - length xs"
      and tg: "target st' = (h @ map (Pair t) xs) @ map (Pair t) (take n ys)"
      and ff: "first_failure env t (target st') (current_batch v') k'"
      and tk: "take n ys @ take k' (current_batch v') = take (k - length xs) ys"
      by (auto simp: loop_outcome_def)
    have a: "length xs + n \<le> k" using n assms(2) by arith
    have b: "target st' = h @ map (Pair t) (take (length xs + n) (xs @ ys))"
      using tg by simp
    have c: "take (length xs + n) (xs @ ys) @ take k' (current_batch v') = take k (xs @ ys)"
      using tk assms(2) by simp
    show ?thesis unfolding Pair Inr by (rule loop_outcome_InrI[OF a b ff c])
  qed
qed

lemma stream_loop_first_failure:
  fixes env :: "'r env"
  assumes tot: "tot \<noteq> 0"
  shows "first_failure env t (target st) (current_batch v @ rows) k \<Longrightarrow>
    loop_outcome env t (target st) (current_batch v @ rows) k (stream_loop env t B tot rows v st)"
proof (induction rows arbitrary: v st k)
  case Nil
  then have "first_failure env t (target st) (current_batch v) k" by simp
  then have "loop_outcome env t (target st) (current_batch v) k (Inr v, st)"
    by (intro loop_outcome_InrI[of 0 k _ _ _ _ _ _ k]) simp_all
  then show ?case by simp
next
  case (Cons row rows)
  let ?cur = "current_batch v @ [row]"
  have ff: "first_failure env t (target st) (?cur @ rows) k" using Cons.prems by simp
  show ?case
  proof (cases "B \<le> int (length ?cur)")
    case False
    let ?v1 = "v\<lparr>current_batch := ?cur\<rparr>"
    have step: "stream_loop env t B tot (row # rows) v st = stream_loop env t B tot rows ?v1 st"
      using False by (simp add: Let_def)
    have "first_failure env t (target st) (current_batch ?v1 @ rows) k" using ff by simp
    from Cons.IH[OF this] show ?thesis unfolding step by simp
  next
    case True
    show ?thesis
    proof (cases "k < length ?cur")
      case k: True
      from first_failure_prefix[OF ff k]
      have ib: "insert_batch env t ?cur st
          = (Inl WriteError, st\<lparr>target := target st @ map (Pair t) (take k ?cur)\<rparr>)"
        by (rule insert_batch_first_failure)
      have step: "stream_loop env t B tot (row # rows) v st
          = (Inl WriteError, st\<lparr>target := target st @ map (Pair t) (take k ?cur)\<rparr>)"
        using True ib by (simp add: Let_def del: insert_batch.simps)
      show ?thesis unfolding step using k by (simp add: loop_outcome_def)
    next
      case k: False
      then have le: "length ?cur \<le> k" by simp
      let ?st1 = "st\<lparr>target := target st @ map (Pair t) ?cur\<rparr>"
      have ib: "insert_batch env t ?cur st = (Inr (), ?st1)"
        using first_failure_no_failure_before[OF ff le] by (rule insert_batch_upto)
      let ?pc = "processed v + int (length ?cur)"
      let ?bn = "batch_num v + 1"
      let ?st2 = "if enable_resume env \<and> ?bn mod 10 = 0
                  then save_checkpoint env t ?pc tot B ?st1 else ?st1"
      let ?v1 = "\<lparr>processed = ?pc, batch_num = ?bn, current_batch = ([]::'r list)\<rparr>"
      have t2: "target ?st2 = target st @ map (Pair t) ?cur" by simp
      have step: "stream_loop env t B tot (row # rows) v st = stream_loop env t B tot rows ?v1 ?st2"
        using True ib tot by (simp add: Let_def progress_def del: insert_batch.simps)
      have "first_failure env t (target ?st2) (current_batch ?v1 @ rows) (k - length ?cur)"
        using first_failure_suffix[OF ff le] t2 by simp
      from Cons.IH[OF this]
      have "loop_outcome env t (target st @ map (Pair t) ?cur) rows (k - length ?cur)
              (stream_loop env t B tot rows ?v1 ?st2)"
        using t2 by simp
      from loop_outcome_shift[OF this le] show ?thesis unfolding step by simp
    qed
  qed
qed

lemma copy_rows_first_failure:
  fixes env :: "'r env"
  assumes tot: "tot \<noteq> 0" and src: "src_rows env t = (rows, broken)"
    and ff: "first_failure env t (target st) rows k"
  shows "\<exists>e st' n. copy_rows env t B tot st = (Inl e, st')
      \<and> target st' = target st @ map (Pair t) (take n rows) \<and> n \<le> k
      \<and> ((e = WriteError \<and> n = k) \<or> (e = SourceError \<and> broken))"
proof -
  let ?v0 = "\<lparr>processed = 0, batch_num = 0, current_batch = ([]::'r list)\<rparr>"
  have "first_failure env t (target st) (current_batch ?v0 @ rows) k" using ff by simp
  from stream_loop_first_failure[OF tot this, of B]
  have lo: "loop_outcome env t (target st) rows k (stream_loop env t B tot rows ?v0 st)" by simp
  obtain res st1 where sl: "stream_loop env t B tot rows ?v0 st = (res, st1)"
    by (cases "stream_loop env t B tot rows ?v0 st")
  show ?thesis
  proof (cases res)
    case (Inl e)
    with lo sl have "e = WriteError" "target st1 = target st @ map (Pair t) (take k rows)"
      by (simp_all add: loop_outcome_def)
    moreover have "copy_rows env t B tot st = (Inl e, st1)"
      using sl Inl src by (simp add: copy_rows_def)
    ultimately show ?thesis by blast
  next
    case (Inr v')
    with lo sl obtain n k' where n: "n \<le> k"
      and tg: "target st1 = target st @ map (Pair t) (take n rows)"
      and f1: "first_failure env t (target st1) (current_batch v') k'"
      and tk: "take n rows @ take k' (current_batch v') = take k rows"
      by (auto simp: loop_outcome_def)
    show ?thesis
    proof (cases broken)
      case True
      then have "copy_rows env t B tot st = (Inl SourceError, st1)"
        using sl Inr src by (simp add: copy_rows_def)
      with tg n True show ?thesis by blast
    next
      case False
      let ?st2 = "st1\<lparr>target := target st1 @ map (Pair t) (take k' (current_batch v'))\<rparr>"
      have ne: "current_batch v' \<noteq> []" using f1 by (auto simp: first_failure_iff)
      have ib: "insert_batch env t (current_batch v') st1 = (Inl WriteError, ?st2)"
        using f1 by (rule insert_batch_first_failure)
      have "flush_tail env t B tot v' st1 = (Inl WriteError, ?st2)"
        using ne ib by (simp add: flush_tail_def)
      then have c: "copy_rows env t B tot st = (Inl WriteError, ?st2)"
        using sl Inr src False by (simp add: copy_rows_def)
      have "target ?st2 = target st @ map (Pair t) (take k rows)"
        using tg tk by (simp flip: map_append)
      with c show ?thesis by blast
    qed
  qed
qed

text \<open>
  Claim C6. Let the copy of a table reach the stream, and let the insert of row
  number \<open>k\<close> of the stream be the first that raises. Then the copy returns False;
  the target holds the rows before \<open>k\<close> and nothing else of the table (or, when the
  cursor raises before the batch of row \<open>k\<close> is flushed, fewer of them); the error
  counter is one higher; the checkpoint operations of the copy are saves only, so the
  file of the table is the last checkpoint saved, or the file that was there before;
  the other statistics are unchanged; and the loop over the tables goes on with the
  tables that follow.
\<close>

theorem write_failure_aborts_table:
  fixes env :: "'r env"
  assumes "fst (report_checkpoint env t st) = Inr ()"
    and "src_count env t = Some tot" and "tot \<noteq> 0"
    and "src_sample env t = Some (Some s)"
    and "src_rows env t = (rows, broken)"
    and "first_failure env t (target st) rows k"
    and "running st"
  shows "\<exists>st' cs n.
      copy_table_data env t B st = (False, st')
      \<and> errors st' = errors st + 1
      \<and> target st' = target st @ map (Pair t) (take n rows)
      \<and> n \<le> k \<and> (\<not> broken \<longrightarrow> n = k)
      \<and> ckpt_ops st' = ckpt_ops st @ map Saved cs
      \<and> files st' = (if cs = [] then files st
                     else (files st)(t := Some (Doc (json_of_Checkpoint (last cs)))))
      \<and> tables_processed st' = tables_processed st
      \<and> records_processed st' = records_processed st
      \<and> run_tables env B (t # ts) st
          = run_tables env B ts (logger ERROR (st'\<lparr>running := \<not> interrupts env t\<rparr>))"
proof -
  obtain st0 where rep: "report_checkpoint env t st = (Inr (), st0)"
    using assms(1) by (cases "report_checkpoint env t st") auto
  have t0: "target st0 = target st"
    using report_checkpoint_extends(1)[OF rep] by (simp add: extends_def)
  have "first_failure env t (target st0) rows k" using assms(6) t0 by simp
  from copy_rows_first_failure[OF assms(3) assms(5) this, of B] obtain e st1 n where
    cr: "copy_rows env t B tot st0 = (Inl e, st1)"
    and tg: "target st1 = target st0 @ map (Pair t) (take n rows)"
    and n: "n \<le> k" and w: "(e = WriteError \<and> n = k) \<or> (e = SourceError \<and> broken)"
    by blast
  have body: "copy_table_body env t B st = (Inl e, st1)"
    using rep assms(2,3,4) cr by (simp add: copy_table_body_def)
  from copy_table_body_Inl[OF body] obtain ws cs where e: "extends st t ws cs st1" by blast
  let ?st' = "(logger ERROR st1)\<lparr>errors := errors st1 + 1\<rparr>"
  have c: "copy_table_data env t B st = (False, ?st')"
    using body by (simp add: copy_table_data_def)
  have r: "run_tables env B (t # ts) st
          = run_tables env B ts (logger ERROR (?st'\<lparr>running := \<not> interrupts env t\<rparr>))"
    using assms(7) c by (simp add: Let_def)
  have nk: "\<not> broken \<longrightarrow> n = k" using w by auto
  show ?thesis
    using c e r tg t0 n nk
    by (intro exI[of _ ?st'] exI[of _ cs] exI[of _ n]) (simp add: extends_def logger_def)
qed

theorem write_failure_aborts_table_witness:
  "first_failure fail_env ''orders'' (target demo_state) [1, 2, 3] 2
   \<and> running demo_state
   \<and> copy_table_data fail_env ''orders'' 2 demo_state
       = (False, demo_state\<lparr>target := [(''orders'', 1), (''orders'', 2)],
                            logs := [ERROR], errors := 1\<rparr>)
   \<and> run_tables fail_env 2 [''orders''] demo_state
       = logger ERROR ((snd (copy_table_data fail_env ''orders'' 2 demo_state))
                         \<lparr>running := \<not> interrupts fail_env ''orders''\<rparr>)"
proof -
  have h1: "fst (report_checkpoint fail_env ''orders'' demo_state) = Inr ()"
    by (simp add: fail_env_def demo_env_def demo_state_def report_checkpoint_def
        load_checkpoint_def)
  have h2: "src_count fail_env ''orders'' = Some 3" "(3::int) \<noteq> 0"
    "src_sample fail_env ''orders'' = Some (Some 1)"
    "src_rows fail_env ''orders'' = ([1, 2, 3], False)"
    by (simp_all add: fail_env_def demo_env_def)
  have h3: "first_failure fail_env ''orders'' (target demo_state) [1, 2, 3] 2"
    by (simp add: first_failure_def fail_env_def demo_state_def upt_rec)
  have h4: "running demo_state" by (simp add: demo_state_def)
  from write_failure_aborts_table[OF h1 h2 h3 h4, of 2 "[]"] obtain st' where
    c: "copy_table_data fail_env ''orders'' 2 demo_state = (False, st')"
    and n: "run_tables fail_env 2 [''orders''] demo_state
          = run_tables fail_env 2 [] (logger ERROR (st'\<lparr>running := \<not> interrupts fail_env ''orders''\<rparr>))"
    by blast
  have v: "copy_table_data fail_env ''orders'' 2 demo_state
       = (False, demo_state\<lparr>target := [(''orders'', 1), (''orders'', 2)],
                            logs := [ERROR], errors := 1\<rparr>)"
    by (simp add: fail_env_def demo_env_def demo_state_def copy_table_data_def
        copy_table_body_def report_checkpoint_def load_checkpoint_def copy_rows_def
        flush_tail_def tgt_execute_def progress_def logger_def Let_def)
  from h3 h4 c n v show ?thesis by simp
qed

text \<open>
  Claim C8. When the count query of the copy is reached and returns 0, the copy
  returns True and changes neither the counters of processed tables and records, nor
  the recorded metrics, nor the error counter, nor the checkpoint directory, nor the
  target.
\<close>

theorem empty_table_changes_nothing:
  assumes "fst (report_checkpoint env t st) = Inr ()" and "src_count env t = Some 0"
  shows "fst (copy_table_data env t B st) = True
     \<and> tables_processed (snd (copy_table_data env t B st)) = tables_processed st
     \<and> records_processed (snd (copy_table_data env t B st)) = records_processed st
     \<and> performance_metrics (snd (copy_table_data env t B st)) = performance_metrics st
     \<and> errors (snd (copy_table_data env t B st)) = errors st
     \<and> files (snd (copy_table_data env t B st)) = files st
     \<and> ckpt_ops (snd (copy_table_data env t B st)) = ckpt_ops st
     \<and> target (snd (copy_table_data env t B st)) = target st"
proof -
  obtain st0 where rep: "report_checkpoint env t st = (Inr (), st0)"
    using assms(1) by (cases "report_checkpoint env t st") auto
  have e: "extends st t [] [] st0" using report_checkpoint_extends(1)[OF rep] .
  have "copy_table_data env t B st = (True, logger WARNING st0)"
    using rep assms(2) by (simp add: copy_table_data_def copy_table_body_def)
  with e show ?thesis by (simp add: extends_def logger_def)
qed

theorem empty_table_changes_nothing_witness:
  "fst (report_checkpoint (demo_env\<lparr>src_count := (\<lambda>t. Some 0)\<rparr>) ''orders'' demo_state) = Inr ()
   \<and> copy_table_data (demo_env\<lparr>src_count := (\<lambda>t. Some 0)\<rparr>) ''orders'' 2 demo_state
      = (True, demo_state\<lparr>logs := [WARNING]\<rparr>)"
proof -
  let ?env = "demo_env\<lparr>src_count := (\<lambda>t. Some 0)\<rparr>"
  have h1: "fst (report_checkpoint ?env ''orders'' demo_state) = Inr ()"
    by (simp add: demo_env_def demo_state_def report_checkpoint_def load_checkpoint_def)
  have h2: "src_count ?env ''orders'' = Some 0" by simp
  from empty_table_changes_nothing[OF h1 h2, of 2] h1 show ?thesis
    by (simp add: demo_env_def demo_state_def report_checkpoint_def load_checkpoint_def
        copy_table_data_def copy_table_body_def logger_def)
qed

lemma ckpt_for_bounds:
  "ckpt_for t tot B lo hi c \<Longrightarrow>
     \<exists>p. processed_count c = JInt p \<and> total_count c = JInt tot \<and> lo \<le> p \<and> p \<le> hi"
  by (auto simp: ckpt_for_def split: json.splits)

lemma copy_table_data_ckpt_ops:
  assumes "copy_table_data env t B st = (ok, st')" and "src_count env t = Some tot"
  shows "\<exists>cs ops. ckpt_ops st' = ckpt_ops st @ map Saved cs @ ops
        \<and> (ops = [] \<or> ops = [Cleared t])
        \<and> list_all (ckpt_for t tot B 0 (int (length (fst (src_rows env t))))) cs"
proof -
  have body: "\<exists>cs ops. ckpt_ops s = ckpt_ops st @ map Saved cs @ ops
        \<and> (ops = [] \<or> ops = [Cleared t])
        \<and> list_all (ckpt_for t tot B 0 (int (length (fst (src_rows env t))))) cs"
    if b: "copy_table_body env t B st = (r, s)" for r s
    using b
  proof (cases rule: copy_table_body_cases)
    case (early e)
    then show ?thesis by (intro exI[of _ "[]"]) (simp add: extends_def)
  next
    case nothing
    then show ?thesis by (intro exI[of _ "[]"]) (simp add: extends_def)
  next
    case (rows tot' st0 e)
    from copy_rows_extends[OF rows(4)] obtain ws cs where e1: "extends st0 t ws cs s"
      and c: "list_all (ckpt_for t tot' B 0 (int (length (fst (src_rows env t))))) cs"
      by blast
    have "extends st t ws cs s" using extends_trans[OF rows(3) e1] by simp
    with c rows(1) assms(2) show ?thesis
      by (intro exI[of _ cs] exI[of _ "[]"]) (simp add: extends_def)
  next
    case (copied tot' st0 v st2)
    from copy_rows_extends[OF copied(4)] obtain ws cs where e1: "extends st0 t ws cs st2"
      and c: "list_all (ckpt_for t tot' B 0 (int (length (fst (src_rows env t))))) cs"
      by blast
    have "extends st t ws cs st2" using extends_trans[OF copied(3) e1] by simp
    with c copied(1,6) assms(2) show ?thesis
      by (intro exI[of _ cs]
           exI[of _ "if enable_resume env \<and> files st2 t \<noteq> None \<and> \<not> fs_fails env t
                     then [Cleared t] else []"])
         (simp add: extends_def finish_copy_fields)
  qed
  from assms(1) show ?thesis
  proof (cases rule: copy_table_data_cases)
    case (failed e st1)
    from body[OF failed(1)] failed(3) show ?thesis by (simp add: logger_def)
  next
    case returned
    from body[OF returned] show ?thesis .
  qed
qed

text \<open>
  Claim C5, amended. When the stream yields no more rows than the count obtained at
  the start of the copy, every checkpoint saved during the copy holds a processed
  count between 0 and that count, and holds that count as its total. (The count and
  the stream are two queries; when the stream is longer than the count, the processed
  count exceeds the total, as the counterexample shows.)
\<close>

theorem persisted_checkpoints_within_total:
  assumes "copy_table_data env t B st = (ok, st')"
    and "src_count env t = Some tot"
    and "int (length (fst (src_rows env t))) \<le> tot"
  shows "\<exists>ops. ckpt_ops st' = ckpt_ops st @ ops
     \<and> (\<forall>c. Saved c \<in> set ops \<longrightarrow>
          (\<exists>p. processed_count c = JInt p \<and> total_count c = JInt tot \<and> 0 \<le> p \<and> p \<le> tot))"
proof -
  from copy_table_data_ckpt_ops[OF assms(1,2)] obtain cs ops where
    o: "ckpt_ops st' = ckpt_ops st @ map Saved cs @ ops"
    and c: "ops = [] \<or> ops = [Cleared t]"
    and b: "list_all (ckpt_for t tot B 0 (int (length (fst (src_rows env t))))) cs"
    by blast
  have "\<exists>p. processed_count c = JInt p \<and> total_count c = JInt tot \<and> 0 \<le> p \<and> p \<le> tot"
    if "Saved c \<in> set (map Saved cs @ ops)" for c
  proof -
    from that c have "c \<in> set cs" by auto
    with b have "ckpt_for t tot B 0 (int (length (fst (src_rows env t)))) c"
      by (simp add: list_all_iff)
    from ckpt_for_bounds[OF this] assms(3) show ?thesis by auto
  qed
  with o show ?thesis by (intro exI[of _ "map Saved cs @ ops"]) simp
qed

lemma stream_loop_saves:
  fixes env :: "'r env"
  assumes res: "enable_resume env" and fs: "\<not> fs_fails env t" and B: "0 < B"
  shows "int (length (current_batch v)) < B \<Longrightarrow> processed v = B * batch_num v \<Longrightarrow>
     stream_loop env t B tot rows v st = (Inr v', st') \<Longrightarrow>
     \<exists>cs. ckpt_ops st' = ckpt_ops st @ map Saved cs
        \<and> map processed_count cs
            = map (\<lambda>n. JInt (B * n)) (filter (\<lambda>n. n mod 10 = 0) [batch_num v + 1..batch_num v'])
        \<and> batch_num v \<le> batch_num v' \<and> processed v' = B * batch_num v'"
proof (induction rows arbitrary: v st)
  case Nil
  then have "v' = v" "st' = st" by simp_all
  with Nil.prems(2) show ?case by (intro exI[of _ "[]"]) simp
next
  case (Cons row rows)
  let ?cur = "current_batch v @ [row]"
  show ?case
  proof (cases "B \<le> int (length ?cur)")
    case False
    let ?v1 = "v\<lparr>current_batch := ?cur\<rparr>"
    have step: "stream_loop env t B tot rows ?v1 st = (Inr v', st')"
      using False Cons.prems(3) by (simp add: Let_def)
    have "int (length (current_batch ?v1)) < B" using False by simp
    moreover have "processed ?v1 = B * batch_num ?v1" using Cons.prems(2) by simp
    ultimately show ?thesis using Cons.IH[OF _ _ step] by simp
  next
    case True
    with Cons.prems(1) have len: "int (length ?cur) = B" by simp
    obtain r1 st1 where ib: "insert_batch env t ?cur st = (r1, st1)"
      by (cases "insert_batch env t ?cur st")
    have r1: "r1 = Inr ()"
      using Cons.prems(3) True ib
      by (cases r1) (simp_all add: Let_def del: insert_batch.simps)
    from insert_batch_extends[OF ib] obtain k where "extends st t (take k ?cur) [] st1" by blast
    then have o1: "ckpt_ops st1 = ckpt_ops st" by (simp add: extends_def)
    let ?bn = "batch_num v + 1"
    let ?pc = "processed v + int (length ?cur)"
    let ?st2 = "if enable_resume env \<and> ?bn mod 10 = 0
                then save_checkpoint env t ?pc tot B st1 else st1"
    let ?v1 = "\<lparr>processed = ?pc, batch_num = ?bn, current_batch = ([]::'r list)\<rparr>"
    have pc: "?pc = B * ?bn" using Cons.prems(2) len by (simp add: algebra_simps)
    have tot: "tot \<noteq> 0"
      using Cons.prems(3) True ib r1
      by (auto simp add: Let_def progress_def simp del: insert_batch.simps)
    have step: "stream_loop env t B tot rows ?v1 ?st2 = (Inr v', st')"
      using Cons.prems(3) True ib r1 tot
      by (auto simp add: Let_def progress_def simp del: insert_batch.simps split: if_splits)
    have "int (length (current_batch ?v1)) < B" using B by simp
    moreover have "processed ?v1 = B * batch_num ?v1" using pc by simp
    ultimately obtain cs where o3: "ckpt_ops st' = ckpt_ops ?st2 @ map Saved cs"
      and m3: "map processed_count cs
            = map (\<lambda>n. JInt (B * n)) (filter (\<lambda>n. n mod 10 = 0) [batch_num ?v1 + 1..batch_num v'])"
      and le3: "batch_num ?v1 \<le> batch_num v'" and p3: "processed v' = B * batch_num v'"
      using Cons.IH[OF _ _ step] by blast
    have le: "?bn \<le> batch_num v'" using le3 by simp
    have up: "[batch_num v + 1..batch_num v'] = ?bn # [?bn + 1..batch_num v']"
      using le by (simp add: upto_rec1)
    show ?thesis
    proof (cases "?bn mod 10 = 0")
      case ten: True
      let ?c = "\<lparr>table_name = JStr t, processed_count = JInt ?pc, total_count = JInt tot,
                 timestamp = JStr (now env (length (ckpt_ops st1))), batch_size = JInt B\<rparr>"
      have o2: "ckpt_ops ?st2 = ckpt_ops st @ [Saved ?c]"
        using ten res fs o1 by (simp add: save_checkpoint_def Let_def)
      have "ckpt_ops st' = ckpt_ops st @ map Saved (?c # cs)" using o3 o2 by simp
      moreover have "map processed_count (?c # cs)
            = map (\<lambda>n. JInt (B * n)) (filter (\<lambda>n. n mod 10 = 0) [batch_num v + 1..batch_num v'])"
        unfolding up using ten m3 pc by simp
      ultimately show ?thesis using le p3 by (intro exI[of _ "?c # cs"]) simp
    next
      case nten: False
      have o2: "ckpt_ops ?st2 = ckpt_ops st" using nten o1 by simp
      have "ckpt_ops st' = ckpt_ops st @ map Saved cs" using o3 o2 by simp
      moreover have "map processed_count cs
            = map (\<lambda>n. JInt (B * n)) (filter (\<lambda>n. n mod 10 = 0) [batch_num v + 1..batch_num v'])"
        unfolding up using nten m3 by simp
      ultimately show ?thesis using le p3 by (intro exI[of _ cs]) simp
    qed
  qed
qed

theorem persisted_checkpoints_within_total_witness:
  "src_count demo_env ''orders'' = Some 3
   \<and> int (length (fst (src_rows demo_env ''orders''))) \<le> 3
   \<and> (\<exists>ops. ckpt_ops (snd (copy_table_data demo_env ''orders'' 2 demo_state))
               = ckpt_ops demo_state @ ops
        \<and> (\<forall>c. Saved c \<in> set ops \<longrightarrow>
              (\<exists>p. processed_count c = JInt p \<and> total_count c = JInt 3 \<and> 0 \<le> p \<and> p \<le> 3)))"
  using persisted_checkpoints_within_total[of demo_env "''orders''" 2 demo_state
          "fst (copy_table_data demo_env ''orders'' 2 demo_state)"
          "snd (copy_table_data demo_env ''orders'' 2 demo_state)" 3]
  by (simp add: demo_env_def)

text \<open>
  The claim as stated fails when the stream is longer than the count: with a count of 1
  and three rows in batches of 2, the checkpoint saved with the trailing batch has
  processed 3 of 1.
\<close>

theorem persisted_checkpoint_exceeds_total_counterexample:
  "ckpt_ops (snd (copy_table_data stale_env ''orders'' 2 demo_state))
     = [Saved \<lparr>table_name = JStr ''orders'', processed_count = JInt 3, total_count = JInt 1,
               timestamp = JStr ''2024-01-01T00:00:00'', batch_size = JInt 2\<rparr>,
        Cleared ''orders'']"
  by (simp add: stale_env_def demo_env_def demo_state_def copy_table_data_def copy_table_body_def
      report_checkpoint_def load_checkpoint_def copy_rows_def flush_tail_def tgt_execute_def
      progress_def save_checkpoint_def clear_checkpoint_def get_performance_metrics_def
      logger_def Let_def)

text \<open>
  The claim as stated fails when the number of rows is a multiple of the batch size:
  two rows in batches of 2 are copied with success, and no checkpoint is ever saved.
\<close>

theorem no_final_checkpoint_counterexample:
  "fst (copy_table_data even_env ''orders'' 2 demo_state) = True
   \<and> ckpt_ops (snd (copy_table_data even_env ''orders'' 2 demo_state)) = []
   \<and> target (snd (copy_table_data even_env ''orders'' 2 demo_state))
       = [(''orders'', 1), (''orders'', 2)]"
  by (simp add: even_env_def demo_env_def demo_state_def copy_table_data_def copy_table_body_def
      report_checkpoint_def load_checkpoint_def copy_rows_def flush_tail_def tgt_execute_def
      progress_def save_checkpoint_def clear_checkpoint_def get_performance_metrics_def
      logger_def Let_def)

section \<open>The final checkpoint\<close>

lemma stream_loop_ok_tail:
  fixes env :: "'r env"
  assumes ok: "\<And>h r. \<not> tgt_fails env h t r" and B: "0 < B" and tot: "tot \<noteq> 0"
  shows "\<exists>v st1. stream_loop env t B tot rows
            \<lparr>processed = 0, batch_num = 0, current_batch = []\<rparr> st = (Inr v, st1)
      \<and> int (length (current_batch v)) = int (length rows) mod B
      \<and> processed v + int (length (current_batch v)) = int (length rows)
      \<and> batch_num v = int (length rows) div B"
proof -
  let ?v0 = "\<lparr>processed = 0, batch_num = 0, current_batch = ([]::'r list)\<rparr>"
  have "int (length (current_batch ?v0)) < B" using B by simp
  from stream_loop_ok[OF ok B tot this, of rows st] obtain v st1 where
    r: "stream_loop env t B tot rows ?v0 st = (Inr v, st1)"
    and a: "processed v + int (length (current_batch v)) = int (length rows)"
    and b: "int (length (current_batch v)) < B"
    and c: "processed v = B * batch_num v"
    by auto
  have "int (length (current_batch v)) = int (length rows) mod B"
    using quotient_unique(2)[of B "int (length (current_batch v))" "batch_num v" "int (length rows)"]
      a b c B by simp
  moreover have "batch_num v = int (length rows) div B"
    using quotient_unique(1)[of B "int (length (current_batch v))" "batch_num v" "int (length rows)"]
      a b c B by simp
  ultimately show ?thesis using r a by blast
qed

lemma map_Saved_eq: "xs @ map Saved cs = xs @ map Saved cs' \<Longrightarrow> cs = cs'"
  by (simp add: inj_map_eq_map inj_on_def)

text \<open>
  Claim C4, amended. With resume enabled, a target that accepts every insert, a
  writable checkpoint directory and a positive batch size \<open>B\<close>, the checkpoints saved
  by the loop are those of every tenth batch, with the processed counts \<open>10 B\<close>,
  \<open>20 B\<close> and so on. When the number of rows of the stream is not a multiple of
  \<open>B\<close>, one more checkpoint is saved after the loop, which carries the full number of
  rows and is followed by the clearing of the checkpoint. When the number of rows is a
  multiple of \<open>B\<close>, no checkpoint is saved after the loop: the saves of every tenth
  batch are the only ones, followed by the clearing when there is a file to clear.
\<close>

theorem final_checkpoint_after_partial_batch:
  fixes env :: "'r env"
  assumes "\<forall>h r. \<not> tgt_fails env h t r"
    and "enable_resume env" and "\<not> fs_fails env t"
    and "src_rows env t = (rows, False)"
    and "0 < B"
    and "src_count env t = Some tot" and "tot \<noteq> 0"
    and "src_sample env t = Some (Some s)"
    and "fst (report_checkpoint env t st) = Inr ()"
  shows "(int (length rows) mod B \<noteq> 0 \<longrightarrow>
           (\<exists>cs c st'. copy_table_data env t B st = (True, st')
              \<and> ckpt_ops st' = ckpt_ops st @ map Saved cs @ [Saved c, Cleared t]
              \<and> processed_count c = JInt (int (length rows))
              \<and> total_count c = JInt tot
              \<and> map processed_count cs
                  = map (\<lambda>n. JInt (B * n))
                      (filter (\<lambda>n. n mod 10 = 0) [1..int (length rows) div B])))
       \<and> (int (length rows) mod B = 0 \<longrightarrow>
           (\<exists>cs st'. copy_table_data env t B st = (True, st')
              \<and> ckpt_ops st'
                  = ckpt_ops st @ map Saved cs
                    @ (if cs = [] \<and> files st t = None then [] else [Cleared t])
              \<and> map processed_count cs
                  = map (\<lambda>n. JInt (B * n))
                      (filter (\<lambda>n. n mod 10 = 0) [1..int (length rows) div B])))"
proof -
  let ?n = "int (length rows)"
  let ?v0 = "\<lparr>processed = 0, batch_num = 0, current_batch = ([]::'r list)\<rparr>"
  let ?per = "map (\<lambda>n. JInt (B * n)) (filter (\<lambda>n. n mod 10 = 0) [1..?n div B])"
  obtain st0 where rep: "report_checkpoint env t st = (Inr (), st0)"
    using assms(9) by (cases "report_checkpoint env t st") auto
  have e0: "extends st t [] [] st0" using report_checkpoint_extends(1)[OF rep] .
  from assms(1) have ok: "\<And>h r. \<not> tgt_fails env h t r" by simp
  from stream_loop_ok_tail[OF ok assms(5) assms(7), of rows st0] obtain v st1 where
    sl: "stream_loop env t B tot rows ?v0 st0 = (Inr v, st1)"
    and m: "int (length (current_batch v)) = ?n mod B"
    and a: "processed v + int (length (current_batch v)) = ?n"
    and q: "batch_num v = ?n div B"
    by blast
  have "int (length (current_batch ?v0)) < B" "processed ?v0 = B * batch_num ?v0"
    using assms(5) by simp_all
  from stream_loop_saves[OF assms(2) assms(3) assms(5) this sl] obtain cs where
    o1: "ckpt_ops st1 = ckpt_ops st0 @ map Saved cs"
    and per: "map processed_count cs = ?per"
    using q by auto
  from stream_loop_extends[OF sl] obtain ws cs2 where e1: "extends st0 t ws cs2 st1" by blast
  then have "ckpt_ops st1 = ckpt_ops st0 @ map Saved cs2" by (simp add: extends_def)
  with o1 have "cs2 = cs" using map_Saved_eq[of "ckpt_ops st0" cs2 cs] by simp
  with e1 have e1': "extends st0 t ws cs st1" by simp
  have partial: "\<exists>cs c st'. copy_table_data env t B st = (True, st')
              \<and> ckpt_ops st' = ckpt_ops st @ map Saved cs @ [Saved c, Cleared t]
              \<and> processed_count c = JInt ?n \<and> total_count c = JInt tot
              \<and> map processed_count cs = ?per"
    if nz: "?n mod B \<noteq> 0"
  proof -
    have ne: "current_batch v \<noteq> []" using m nz by auto
    let ?s = "st1\<lparr>target := target st1 @ map (Pair t) (current_batch v)\<rparr>"
    let ?c = "\<lparr>table_name = JStr t, processed_count = JInt ?n, total_count = JInt tot,
               timestamp = JStr (now env (length (ckpt_ops ?s))), batch_size = JInt B\<rparr>"
    let ?st2 = "save_checkpoint env t ?n tot B ?s"
    let ?v' = "v\<lparr>processed := ?n, batch_num := batch_num v + 1\<rparr>"
    have ft: "flush_tail env t B tot v st1 = (Inr ?v', ?st2)"
      using ne assms(2,7) a
      by (simp add: flush_tail_def insert_batch_ok[OF ok] progress_def Let_def)
    have cr: "copy_rows env t B tot st0 = (Inr ?v', ?st2)"
      using sl ft assms(4) by (simp add: copy_rows_def)
    have o2: "ckpt_ops ?st2 = ckpt_ops st1 @ [Saved ?c]" and f2: "files ?st2 t \<noteq> None"
      using assms(3) by (simp_all add: save_checkpoint_def Let_def)
    have body: "copy_table_body env t B st = (Inr True, finish_copy env t ?v' ?st2)"
      using rep assms(6,7,8) cr
      by (simp add: copy_table_body_def finish_copy_def Let_def)
    have c: "copy_table_data env t B st = (True, finish_copy env t ?v' ?st2)"
      using body by (simp add: copy_table_data_def)
    have "ckpt_ops (finish_copy env t ?v' ?st2)
        = ckpt_ops st @ map Saved cs @ [Saved ?c, Cleared t]"
      using finish_copy_fields(6)[of env t ?v' ?st2] f2 o2 e0 e1' assms(2,3)
      by (simp add: extends_def)
    with c per show ?thesis
      by (intro exI[of _ cs] exI[of _ ?c] exI[of _ "finish_copy env t ?v' ?st2"]) simp
  qed
  have whole: "\<exists>cs st'. copy_table_data env t B st = (True, st')
              \<and> ckpt_ops st'
                  = ckpt_ops st @ map Saved cs
                    @ (if cs = [] \<and> files st t = None then [] else [Cleared t])
              \<and> map processed_count cs = ?per"
    if z: "?n mod B = 0"
  proof -
    have "current_batch v = []" using m z by simp
    then have "flush_tail env t B tot v st1 = (Inr v, st1)" by (simp add: flush_tail_def)
    then have cr: "copy_rows env t B tot st0 = (Inr v, st1)"
      using sl assms(4) by (simp add: copy_rows_def)
    have body: "copy_table_body env t B st = (Inr True, finish_copy env t v st1)"
      using rep assms(6,7,8) cr
      by (simp add: copy_table_body_def finish_copy_def Let_def)
    have c: "copy_table_data env t B st = (True, finish_copy env t v st1)"
      using body by (simp add: copy_table_data_def)
    have f: "files st1 t \<noteq> None \<longleftrightarrow> \<not> (cs = [] \<and> files st t = None)"
      using e0 e1' by (auto simp: extends_def)
    have "ckpt_ops (finish_copy env t v st1)
        = ckpt_ops st @ map Saved cs @ (if cs = [] \<and> files st t = None then [] else [Cleared t])"
      using finish_copy_fields(6)[of env t v st1] f e0 e1' assms(2,3)
      by (auto simp: extends_def)
    with c per show ?thesis
      by (intro exI[of _ cs] exI[of _ "finish_copy env t v st1"]) simp
  qed
  show ?thesis using partial whole by blast
qed

theorem final_checkpoint_after_partial_batch_witness:
  "(\<exists>cs c st'. copy_table_data demo_env ''orders'' 2 demo_state = (True, st')
      \<and> ckpt_ops st' = ckpt_ops demo_state @ map Saved cs @ [Saved c, Cleared ''orders'']
      \<and> processed_count c = JInt 3
      \<and> total_count c = JInt 3
      \<and> cs = [])
   \<and> (\<exists>st'. copy_table_data even_env ''orders'' 2 demo_state = (True, st')
      \<and> ckpt_ops st' = ckpt_ops demo_state)"
proof -
  have d: "files demo_state ''orders'' = None" by (simp add: demo_state_def)
  have u: "filter (\<lambda>n. n mod 10 = 0) [1..(1::int)] = []" by (simp add: upto.simps)
  from final_checkpoint_after_partial_batch[of demo_env "''orders''" "[1, 2, 3]" 2 3 1 demo_state]
       final_checkpoint_after_partial_batch[of even_env "''orders''" "[1, 2]" 2 2 1 demo_state]
       d u
  show ?thesis
    by (simp add: even_env_def demo_env_def demo_state_def report_checkpoint_def
        load_checkpoint_def)
qed

section \<open>The copier reads neither the parallel settings nor the validator's answers\<close>

lemma tgt_execute_env:
  "copier_inputs_eq e e' \<Longrightarrow> tgt_execute e t r st = tgt_execute e' t r st"
  by (simp add: tgt_execute_def copier_inputs_eq_def)

lemma insert_batch_env:
  "copier_inputs_eq e e' \<Longrightarrow> insert_batch e t rs st = insert_batch e' t rs st"
  by (induction rs arbitrary: st) (simp_all add: tgt_execute_env split: prod.splits sum.splits)

lemma save_checkpoint_env:
  "copier_inputs_eq e e' \<Longrightarrow> save_checkpoint e t pc tot B st = save_checkpoint e' t pc tot B st"
  by (simp add: save_checkpoint_def copier_inputs_eq_def)

lemma clear_checkpoint_env:
  "copier_inputs_eq e e' \<Longrightarrow> clear_checkpoint e t st = clear_checkpoint e' t st"
  by (simp add: clear_checkpoint_def copier_inputs_eq_def)

lemma report_checkpoint_env:
  "copier_inputs_eq e e' \<Longrightarrow> report_checkpoint e t st = report_checkpoint e' t st"
  by (simp add: report_checkpoint_def copier_inputs_eq_def)

lemma stream_loop_env:
  assumes "copier_inputs_eq e e'"
  shows "stream_loop e t B tot rows v st = stream_loop e' t B tot rows v st"
proof (induction rows arbitrary: v st)
  case Nil
  show ?case by simp
next
  case (Cons row rows)
  have r: "enable_resume e = enable_resume e'"
    using assms by (simp add: copier_inputs_eq_def)
  show ?case
    by (simp add: Let_def insert_batch_env[OF assms] save_checkpoint_env[OF assms] r Cons.IH
        del: insert_batch.simps split: prod.splits sum.splits)
qed

lemma flush_tail_env:
  assumes "copier_inputs_eq e e'"
  shows "flush_tail e t B tot v st = flush_tail e' t B tot v st"
proof -
  have r: "enable_resume e = enable_resume e'"
    using assms by (simp add: copier_inputs_eq_def)
  show ?thesis
    by (simp add: flush_tail_def Let_def insert_batch_env[OF assms] save_checkpoint_env[OF assms] r
        split: prod.splits sum.splits)
qed

lemma copy_rows_env:
  assumes "copier_inputs_eq e e'"
  shows "copy_rows e t B tot st = copy_rows e' t B tot st"
proof -
  have r: "src_rows e = src_rows e'"
    using assms by (simp add: copier_inputs_eq_def)
  show ?thesis
    by (simp add: copy_rows_def stream_loop_env[OF assms] flush_tail_env[OF assms] r
        split: prod.splits sum.splits)
qed

lemma copy_table_body_env:
  assumes "copier_inputs_eq e e'"
  shows "copy_table_body e t B st = copy_table_body e' t B st"
proof -
  have r: "src_count e = src_count e'" "src_sample e = src_sample e'"
    "psutil_fails e = psutil_fails e'" "enable_resume e = enable_resume e'"
    using assms by (simp_all add: copier_inputs_eq_def)
  show ?thesis
    by (simp add: copy_table_body_def report_checkpoint_env[OF assms] copy_rows_env[OF assms]
        clear_checkpoint_env[OF assms] get_performance_metrics_def r Let_def
        split: prod.splits sum.splits option.splits)
qed

lemma copy_table_data_env:
  "copier_inputs_eq e e' \<Longrightarrow> copy_table_data e t B st = copy_table_data e' t B st"
  by (simp add: copy_table_data_def copy_table_body_env)

text \<open>
  Claim C3, which the code does not meet. The claim sends every full batch through
  \<^verbatim>\<open>process_batch_parallel\<close> when parallel mode is enabled. In the code the copy of a
  table depends neither on \<open>enable_parallel\<close> nor on \<open>max_workers\<close>: with parallel
  mode enabled it is the same row-by-row copy as with parallel mode disabled.
\<close>

theorem copy_table_data_ignores_parallel_mode:
  "copy_table_data (env\<lparr>enable_parallel := p, max_workers := w\<rparr>) t B st
     = copy_table_data env t B st"
  by (rule copy_table_data_env) (simp add: copier_inputs_eq_def)

section \<open>Nothing reads the log\<close>

lemma unlog_eq_iff:
  "unlog s1 = unlog s2 \<longleftrightarrow>
     target s1 = target s2 \<and> files s1 = files s2 \<and> ckpt_ops s1 = ckpt_ops s2
     \<and> running s1 = running s2 \<and> tables_processed s1 = tables_processed s2
     \<and> records_processed s1 = records_processed s2 \<and> errors s1 = errors s2
     \<and> performance_metrics s1 = performance_metrics s2"
  by (cases s1; cases s2) (auto simp: unlog_def)

lemma unlog_logger [simp]: "unlog (logger l st) = unlog st"
  by (simp add: unlog_def logger_def)

lemma load_checkpoint_unlog:
  assumes "unlog s1 = unlog s2"
  shows "fst (load_checkpoint t s1) = fst (load_checkpoint t s2)"
    and "unlog (snd (load_checkpoint t s1)) = unlog (snd (load_checkpoint t s2))"
proof -
  have f: "files s1 = files s2" using assms by (simp add: unlog_eq_iff)
  show "fst (load_checkpoint t s1) = fst (load_checkpoint t s2)"
    by (simp add: load_checkpoint_def f split: option.splits ckpt_file.splits)
  show "unlog (snd (load_checkpoint t s1)) = unlog (snd (load_checkpoint t s2))"
    using assms by (simp add: load_checkpoint_def f split: option.splits ckpt_file.splits)
qed

lemma report_checkpoint_unlog:
  assumes "unlog s1 = unlog s2"
  shows "fst (report_checkpoint env t s1) = fst (report_checkpoint env t s2)"
    and "unlog (snd (report_checkpoint env t s1)) = unlog (snd (report_checkpoint env t s2))"
proof -
  obtain c1 s1' where l1: "load_checkpoint t s1 = (c1, s1')" by (cases "load_checkpoint t s1")
  obtain c2 s2' where l2: "load_checkpoint t s2 = (c2, s2')" by (cases "load_checkpoint t s2")
  have c: "c1 = c2" and u: "unlog s1' = unlog s2'"
    using load_checkpoint_unlog[OF assms, of t] l1 l2 by simp_all
  show "fst (report_checkpoint env t s1) = fst (report_checkpoint env t s2)"
    using l1 l2 c by (simp add: report_checkpoint_def split: option.splits)
  show "unlog (snd (report_checkpoint env t s1)) = unlog (snd (report_checkpoint env t s2))"
    using l1 l2 c u assms by (simp add: report_checkpoint_def split: option.splits)
qed

lemma same_outcomeE:
  assumes "fst r1 = fst r2 \<and> unlog (snd r1) = unlog (snd r2)"
  obtains a s1' s2' where "r1 = (a, s1')" and "r2 = (a, s2')" and "unlog s1' = unlog s2'"
  using assms by (cases r1; cases r2) auto

lemma tgt_execute_unlog:
  assumes "unlog s1 = unlog s2"
  shows "fst (tgt_execute env t r s1) = fst (tgt_execute env t r s2)
     \<and> unlog (snd (tgt_execute env t r s1)) = unlog (snd (tgt_execute env t r s2))"
  using assms by (auto simp: tgt_execute_def unlog_eq_iff)

lemma insert_batch_unlog:
  "unlog s1 = unlog s2 \<Longrightarrow>
     fst (insert_batch env t rs s1) = fst (insert_batch env t rs s2)
     \<and> unlog (snd (insert_batch env t rs s1)) = unlog (snd (insert_batch env t rs s2))"
proof (induction rs arbitrary: s1 s2)
  case Nil
  then show ?case by simp
next
  case (Cons r rs)
  from tgt_execute_unlog[OF Cons.prems, of env t r] obtain a s1' s2' where
    e1: "tgt_execute env t r s1 = (a, s1')" and e2: "tgt_execute env t r s2 = (a, s2')"
    and u: "unlog s1' = unlog s2'" by (rule same_outcomeE)
  show ?case
    using e1 e2 u Cons.IH[OF u] by (cases a) simp_all
qed

lemma save_checkpoint_unlog:
  "unlog s1 = unlog s2 \<Longrightarrow>
     unlog (save_checkpoint env t pc tot B s1) = unlog (save_checkpoint env t pc tot B s2)"
  by (auto simp: save_checkpoint_def Let_def unlog_eq_iff logger_def)

lemma clear_checkpoint_unlog:
  "unlog s1 = unlog s2 \<Longrightarrow>
     unlog (clear_checkpoint env t s1) = unlog (clear_checkpoint env t s2)"
  by (auto simp: clear_checkpoint_def unlog_eq_iff logger_def split: option.splits)

lemma stream_loop_unlog:
  fixes env :: "'r env"
  shows "unlog s1 = unlog s2 \<Longrightarrow>
     fst (stream_loop env t B tot rows v s1) = fst (stream_loop env t B tot rows v s2)
     \<and> unlog (snd (stream_loop env t B tot rows v s1))
         = unlog (snd (stream_loop env t B tot rows v s2))"
proof (induction rows arbitrary: v s1 s2)
  case Nil
  then show ?case by simp
next
  case (Cons row rows)
  let ?cur = "current_batch v @ [row]"
  show ?case
  proof (cases "B \<le> int (length ?cur)")
    case False
    with Cons.IH[OF Cons.prems, of "v\<lparr>current_batch := ?cur\<rparr>"] show ?thesis
      by (simp add: Let_def)
  next
    case True
    from insert_batch_unlog[OF Cons.prems, of env t ?cur] obtain a s1' s2' where
      e1: "insert_batch env t ?cur s1 = (a, s1')" and e2: "insert_batch env t ?cur s2 = (a, s2')"
      and u: "unlog s1' = unlog s2'" by (rule same_outcomeE)
    show ?thesis
    proof (cases a)
      case (Inl e)
      with u e1 e2 True show ?thesis by (simp add: Let_def del: insert_batch.simps)
    next
      case (Inr x)
      let ?pc = "processed v + int (length ?cur)"
      let ?bn = "batch_num v + 1"
      let ?sv = "\<lambda>s. if enable_resume env \<and> ?bn mod 10 = 0
                  then save_checkpoint env t ?pc tot B s else s"
      let ?v1 = "\<lparr>processed = ?pc, batch_num = ?bn, current_batch = ([]::'r list)\<rparr>"
      have u2: "unlog (?sv s1') = unlog (?sv s2')"
        using u save_checkpoint_unlog[OF u] by simp
      have r1: "stream_loop env t B tot (row # rows) v s1
          = (if tot = 0 then (Inl ZeroDivisionError, ?sv s1')
             else stream_loop env t B tot rows ?v1 (?sv s1'))"
        using True e1 Inr by (simp add: Let_def progress_def del: insert_batch.simps)
      have r2: "stream_loop env t B tot (row # rows) v s2
          = (if tot = 0 then (Inl ZeroDivisionError, ?sv s2')
             else stream_loop env t B tot rows ?v1 (?sv s2'))"
        using True e2 Inr by (simp add: Let_def progress_def del: insert_batch.simps)
      show ?thesis
        unfolding r1 r2 using u2 Cons.IH[OF u2, of ?v1] by simp
    qed
  qed
qed

lemma flush_tail_unlog:
  assumes "unlog s1 = unlog s2"
  shows "fst (flush_tail env t B tot v s1) = fst (flush_tail env t B tot v s2)
     \<and> unlog (snd (flush_tail env t B tot v s1)) = unlog (snd (flush_tail env t B tot v s2))"
proof -
  let ?cur = "current_batch v"
  from insert_batch_unlog[OF assms, of env t ?cur] obtain a s1' s2' where
    e1: "insert_batch env t ?cur s1 = (a, s1')" and e2: "insert_batch env t ?cur s2 = (a, s2')"
    and u: "unlog s1' = unlog s2'" by (rule same_outcomeE)
  show ?thesis
    using assms u e1 e2 save_checkpoint_unlog[OF u]
    by (cases a) (simp_all add: flush_tail_def Let_def progress_def)
qed

lemma copy_rows_unlog:
  fixes env :: "'r env"
  assumes "unlog s1 = unlog s2"
  shows "fst (copy_rows env t B tot s1) = fst (copy_rows env t B tot s2)
     \<and> unlog (snd (copy_rows env t B tot s1)) = unlog (snd (copy_rows env t B tot s2))"
proof -
  let ?v0 = "\<lparr>processed = 0, batch_num = 0, current_batch = ([]::'r list)\<rparr>"
  let ?rows = "fst (src_rows env t)"
  from stream_loop_unlog[OF assms, of env t B tot ?rows ?v0] obtain a s1' s2' where
    e1: "stream_loop env t B tot ?rows ?v0 s1 = (a, s1')"
    and e2: "stream_loop env t B tot ?rows ?v0 s2 = (a, s2')"
    and u: "unlog s1' = unlog s2'" by (rule same_outcomeE)
  show ?thesis
  proof (cases a)
    case (Inl e)
    with u e1 e2 show ?thesis by (simp add: copy_rows_def)
  next
    case (Inr v)
    with u e1 e2 flush_tail_unlog[OF u, of env t B tot v] show ?thesis
      by (simp add: copy_rows_def)
  qed
qed

lemma finish_copy_unlog:
  assumes "unlog s1 = unlog s2"
  shows "unlog (finish_copy env t v s1) = unlog (finish_copy env t v s2)"
proof -
  let ?m = "\<lambda>s. (if psutil_fails env then logger WARNING s else s)
               \<lparr>performance_metrics := (performance_metrics
                    (if psutil_fails env then logger WARNING s else s))
                    (t := Some (get_performance_metrics env (processed v)))\<rparr>"
  have "unlog (?m s1) = unlog (?m s2)"
    using assms by (auto simp: unlog_eq_iff logger_def)
  then have "unlog (if enable_resume env then clear_checkpoint env t (?m s1) else ?m s1)
      = unlog (if enable_resume env then clear_checkpoint env t (?m s2) else ?m s2)"
    using clear_checkpoint_unlog[of "?m s1" "?m s2" env t] by simp
  then show ?thesis
    by (simp add: finish_copy_def Let_def unlog_eq_iff)
qed

lemma copy_table_body_unlog:
  fixes env :: "'r env"
  assumes "unlog s1 = unlog s2"
  shows "fst (copy_table_body env t B s1) = fst (copy_table_body env t B s2)
     \<and> unlog (snd (copy_table_body env t B s1)) = unlog (snd (copy_table_body env t B s2))"
proof -
  from report_checkpoint_unlog[OF assms, of env t] obtain r s1' s2' where
    e1: "report_checkpoint env t s1 = (r, s1')" and e2: "report_checkpoint env t s2 = (r, s2')"
    and u: "unlog s1' = unlog s2'" by - (rule same_outcomeE, blast)
  show ?thesis
  proof (cases r)
    case (Inl e)
    with e1 e2 u show ?thesis by (simp add: copy_table_body_def)
  next
    case (Inr x)
    show ?thesis
    proof (cases "src_count env t")
      case None
      with Inr e1 e2 u show ?thesis by (simp add: copy_table_body_def)
    next
      case (Some tot)
      show ?thesis
      proof (cases "tot = 0")
        case True
        with Inr Some e1 e2 u show ?thesis by (simp add: copy_table_body_def)
      next
        case False
        show ?thesis
        proof (cases "src_sample env t")
          case None
          with Inr Some False e1 e2 u show ?thesis by (simp add: copy_table_body_def)
        next
          case sm: (Some sample)
          show ?thesis
          proof (cases sample)
            case None
            with Inr Some False sm e1 e2 u show ?thesis by (simp add: copy_table_body_def)
          next
            case (Some sample_row)
            from copy_rows_unlog[OF u, of env t B tot] obtain a s1'' s2'' where
              c1: "copy_rows env t B tot s1' = (a, s1'')"
              and c2: "copy_rows env t B tot s2' = (a, s2'')"
              and u': "unlog s1'' = unlog s2''" by (rule same_outcomeE)
            have b1: "copy_table_body env t B s1
                = (case a of Inl e \<Rightarrow> (Inl e, s1'') | Inr v \<Rightarrow> (Inr True, finish_copy env t v s1''))"
              using Inr \<open>src_count env t = Some tot\<close> False sm Some e1 c1
              by (simp add: copy_table_body_def finish_copy_def Let_def split: sum.splits)
            have b2: "copy_table_body env t B s2
                = (case a of Inl e \<Rightarrow> (Inl e, s2'') | Inr v \<Rightarrow> (Inr True, finish_copy env t v s2''))"
              using Inr \<open>src_count env t = Some tot\<close> False sm Some e2 c2
              by (simp add: copy_table_body_def finish_copy_def Let_def split: sum.splits)
            show ?thesis
              unfolding b1 b2 using u' finish_copy_unlog[OF u', of env t]
              by (cases a) simp_all
          qed
        qed
      qed
    qed
  qed
qed

lemma copy_table_data_unlog:
  fixes env :: "'r env"
  assumes "unlog s1 = unlog s2"
  shows "fst (copy_table_data env t B s1) = fst (copy_table_data env t B s2)
     \<and> unlog (snd (copy_table_data env t B s1)) = unlog (snd (copy_table_data env t B s2))"
proof -
  from copy_table_body_unlog[OF assms, of env t B] obtain r s1' s2' where
    e1: "copy_table_body env t B s1 = (r, s1')" and e2: "copy_table_body env t B s2 = (r, s2')"
    and u: "unlog s1' = unlog s2'" by (rule same_outcomeE)
  have "unlog ((logger ERROR s1')\<lparr>errors := errors s1' + 1\<rparr>)
      = unlog ((logger ERROR s2')\<lparr>errors := errors s2' + 1\<rparr>)"
    using u by (auto simp: unlog_eq_iff logger_def)
  with e1 e2 u show ?thesis
    by (cases r) (simp_all add: copy_table_data_def)
qed

lemma validate_unlog [simp]:
  "unlog (snd (validate_data_integrity_detailed env t st)) = unlog st"
  by (simp add: validate_data_integrity_detailed_def Let_def split: option.splits)

lemma run_tables_unlog:
  fixes env env' :: "'r env"
  assumes "copier_inputs_eq env' env" and "interrupts env' = interrupts env"
  shows "unlog s1 = unlog s2 \<Longrightarrow>
     unlog (run_tables env' B ts s1) = unlog (run_tables env B ts s2)"
proof (induction ts arbitrary: s1 s2)
  case Nil
  then show ?case by simp
next
  case (Cons t ts)
  have run: "running s1 = running s2" using Cons.prems by (simp add: unlog_eq_iff)
  show ?case
  proof (cases "running s1")
    case False
    with run Cons.prems show ?thesis by simp
  next
    case True
    have c: "copy_table_data env' t B s1 = copy_table_data env t B s1"
      using copy_table_data_env[OF assms(1)] .
    from copy_table_data_unlog[OF Cons.prems, of env t B] obtain ok s1' s2' where
      e1: "copy_table_data env t B s1 = (ok, s1')" and e2: "copy_table_data env t B s2 = (ok, s2')"
      and u: "unlog s1' = unlog s2'" by (rule same_outcomeE)
    let ?i = "\<lambda>s::'r state. s\<lparr>running := \<not> interrupts env t\<rparr>"
    have ui: "unlog (?i s1') = unlog (?i s2')" using u by (auto simp: unlog_eq_iff)
    have r1: "run_tables env' B (t # ts) s1
        = run_tables env' B ts (if ok then snd (validate_data_integrity_detailed env' t (?i s1'))
                                 else logger ERROR (?i s1'))"
      using True c e1 assms(2) by (simp add: Let_def)
    have r2: "run_tables env B (t # ts) s2
        = run_tables env B ts (if ok then snd (validate_data_integrity_detailed env t (?i s2'))
                                else logger ERROR (?i s2'))"
      using True run e2 by (simp add: Let_def)
    have "unlog (if ok then snd (validate_data_integrity_detailed env' t (?i s1'))
                 else logger ERROR (?i s1'))
        = unlog (if ok then snd (validate_data_integrity_detailed env t (?i s2'))
                 else logger ERROR (?i s2'))"
      using ui by simp
    from Cons.IH[OF this] show ?thesis unfolding r1 r2 .
  qed
qed

text \<open>
  Claim C9. Whatever the validator's queries answer, and so whether it reports a match
  or a mismatch, the value returned by the run and the state it leaves (target,
  checkpoint directory, statistics, flag) are the same; only the log can differ.
\<close>

theorem validator_result_is_dropped:
  "fst (run_backfill (env\<lparr>val_src_count := a, val_tgt_count := b,
                          val_src_sample := c, val_tgt_sample := d\<rparr>) tables st)
     = fst (run_backfill env tables st)
   \<and> unlog (snd (run_backfill (env\<lparr>val_src_count := a, val_tgt_count := b,
                                   val_src_sample := c, val_tgt_sample := d\<rparr>) tables st))
     = unlog (snd (run_backfill env tables st))"
proof -
  let ?env' = "env\<lparr>val_src_count := a, val_tgt_count := b,
                   val_src_sample := c, val_tgt_sample := d\<rparr>"
  have i: "copier_inputs_eq ?env' env" by (simp add: copier_inputs_eq_def)
  have j: "interrupts ?env' = interrupts env" by simp
  have "unlog (run_tables ?env' (config_batch_size env) tables st)
      = unlog (run_tables env (config_batch_size env) tables st)"
    using run_tables_unlog[OF i j, of st st] by simp
  then show ?thesis by (simp add: run_backfill_def)
qed

text \<open>Both reports of the validator occur.\<close>

lemma validator_reports_match:
  "fst (validate_data_integrity_detailed demo_env ''orders'' demo_state) = True"
  by (simp add: validate_data_integrity_detailed_def demo_env_def)

lemma validator_reports_mismatch:
  "validate_data_integrity_detailed (demo_env\<lparr>val_tgt_count := (\<lambda>t. Some 2)\<rparr>) ''orders''
     demo_state = (False, demo_state\<lparr>logs := [ERROR]\<rparr>)"
  by (simp add: validate_data_integrity_detailed_def demo_env_def demo_state_def logger_def)

section \<open>The parallel batch executor\<close>

text \<open>With a pool that works, the rows of a failing batch are left out of the count and
  one error is logged; the order of the inserts is that of the schedule.\<close>

lemma process_batch_parallel_tolerates_failure:
  "process_batch_parallel fail_env [[1, 2], [3, 4], [5]] ''orders'' demo_state
     = (Inr 3, demo_state\<lparr>target := [(''orders'', 1), (''orders'', 2), (''orders'', 5)],
                          logs := [ERROR]\<rparr>)"
  by (simp add: process_batch_parallel_def pool_failure_def run_pool_def fail_env_def
      demo_env_def demo_state_def tgt_execute_def logger_def)

lemma process_batch_parallel_interleaved:
  "process_batch_parallel interleaved_env [[1, 2], [3, 4]] ''orders'' demo_state
     = (Inr 4, demo_state\<lparr>target := [(''orders'', 1), (''orders'', 3), (''orders'', 2),
                                     (''orders'', 4)]\<rparr>)"
  by (simp add: process_batch_parallel_def pool_failure_def run_pool_def interleaved_env_def
      demo_env_def demo_state_def tgt_execute_def eligible_def)

text \<open>
  Claim C2, which the code does not meet. The claim has every batch attempted once,
  a result that leaves out the rows of a failing batch and no others, and a fallback
  that never applies again a batch already run by the pool. In the code, when the
  \<^verbatim>\<open>with\<close> statement is left by an exception after two batches have been handed to
  the workers, both are completed by the pool and then applied again by the fallback:
  every row reaches the target twice. And when the pool cannot be built and the first
  insert of the first batch raises, the fallback raises instead of returning a count,
  and the second batch is never attempted.
\<close>

theorem process_batch_parallel_reapplies_and_raises:
  "process_batch_parallel faulty_pool_env [[1, 2], [3, 4]] ''orders'' demo_state
     = (Inr 4, demo_state\<lparr>target := [(''orders'', 1), (''orders'', 2), (''orders'', 3),
                                     (''orders'', 4), (''orders'', 1), (''orders'', 2),
                                     (''orders'', 3), (''orders'', 4)],
                          logs := [ERROR]\<rparr>)
   \<and> process_batch_parallel no_pool_env [[3], [1, 2]] ''orders'' demo_state
     = (Inl WriteError, demo_state\<lparr>logs := [ERROR]\<rparr>)"
  by (simp add: process_batch_parallel_def pool_failure_def run_pool_def faulty_pool_env_def
      no_pool_env_def fail_env_def demo_env_def demo_state_def tgt_execute_def logger_def)

end
